theory Spec2Isabelle
  imports Complex_Main "HOL-Library.Word"
begin

unbundle bit_operations_syntax

section \<open>Shared data: buffers and errors\<close>

text \<open>
  A Node \<open>Buffer\<close> is a sequence of bytes. Every \<open>throw new Error(...)\<close> of the
  sources is a value of \<open>error\<close>; the constructor records which throw site it was, and
  for the option checks which check failed (the source distinguishes them by message).
  \<^item> \<open>InvalidInput\<close>: \<^verbatim>\<open>'imageBuffer must be a Buffer'\<close>
  \<^item> \<open>InvalidOption\<close>: the four option checks of \<open>applyDithering\<close>
  \<^item> \<open>ProcessingFailed\<close>: \<^verbatim>\<open>`Dithering failed: ${error.message}`\<close>
  \<^item> \<open>UnsupportedDepth\<close>: \<^verbatim>\<open>'Unsupported bits per pixel. ...'\<close>
  \<^item> \<open>RangeError\<close>: the \<open>ERR_OUT_OF_RANGE\<close> that Node's Buffer read and write methods throw
\<close>

type_synonym byte = "8 word"
type_synonym buffer = "byte list"

datatype option_fault =
    BadMethod string
  | BadBitDepth int
  | LevelsOutOfRange
  | BlackNotBelowWhite

datatype error =
    InvalidInput
  | InvalidOption option_fault
  | ProcessingFailed string
  | UnsupportedDepth
  | RangeError

section \<open>lib/dithering.js (puppet/ha-puppet)\<close>

text \<open>
  The first argument of \<open>applyDithering\<close> is any JavaScript value; the only thing the
  code asks of it is \<open>Buffer.isBuffer\<close>.
\<close>

datatype js_input = Buffer buffer | NotABuffer

text \<open>
  The options object. A field that is absent (or \<open>undefined\<close>) is \<open>None\<close>: the
  destructuring defaults of the source apply exactly to those. Levels are integers, as in
  the data model of the specification.
\<close>

record DitheringOptions =
  opt_method :: "string option"
  opt_bitDepth :: "int option"
  opt_gammaCorrection :: "bool option"
  opt_blackLevel :: "int option"
  opt_whiteLevel :: "int option"

text \<open>
  The GraphicsMagick command the code builds, as the list of the operations it chains, in
  order. \<open>Level b w\<close> is \<open>image.level(`${b}%`, 1.0, `${w}%`)\<close>. The binary itself
  is outside the repository: it is a parameter, a function from the input bytes and the
  operations to either an error message or the PNG bytes \<open>toBuffer('PNG')\<close> yields.
\<close>

datatype gm_op =
    NoProfile
  | Colorspace string
  | Level int int
  | Dither bool
  | Monochrome
  | Threshold int bool
  | Colors int

type_synonym backend = "buffer \<Rightarrow> gm_op list \<Rightarrow> string + buffer"

record ResolvedOptions =
  dither_method :: string
  bitDepth :: int
  gammaCorrection :: bool
  blackLevel :: int
  whiteLevel :: int

definition default_to :: "'a \<Rightarrow> 'a option \<Rightarrow> 'a" where
  "default_to d v = (case v of None \<Rightarrow> d | Some x \<Rightarrow> x)"

text \<open>Lines 79-85: the destructuring with defaults.\<close>

definition resolveOptions :: "DitheringOptions \<Rightarrow> ResolvedOptions" where
  "resolveOptions options =
     \<lparr> dither_method = default_to ''floyd-steinberg'' (opt_method options),
       bitDepth = default_to 4 (opt_bitDepth options),
       gammaCorrection = default_to True (opt_gammaCorrection options),
       blackLevel = default_to 0 (opt_blackLevel options),
       whiteLevel = default_to 100 (opt_whiteLevel options) \<rparr>"

text \<open>Lines 132-167: the dithering step, selected by bit depth and method.\<close>

definition ditherOps :: "string \<Rightarrow> int \<Rightarrow> gm_op list" where
  "ditherOps m bd =
     (if bd = 1 then
        (if m = ''floyd-steinberg'' then [Dither True, Monochrome]
         else if m = ''ordered'' then [Dither False, Monochrome]
         else [Threshold 50 True])
      else if bd = 2 \<or> bd = 4 then
        (if m = ''floyd-steinberg'' then [Dither True, Colors (2 ^ nat bd)]
         else if m = ''ordered'' then [Dither False, Colors (2 ^ nat bd)]
         else [Colors (2 ^ nat bd)])
      else
        (if m = ''floyd-steinberg'' then [Dither True]
         else if m = ''ordered'' then [Dither False]
         else []))"

text \<open>Lines 113-167: the whole chain, in the order the source builds it.\<close>

definition pipeline :: "ResolvedOptions \<Rightarrow> gm_op list" where
  "pipeline r =
     (if gammaCorrection r then [NoProfile] else [])
     @ [Colorspace ''Gray'']
     @ (if blackLevel r > 0 \<or> whiteLevel r < 100 then [Level (blackLevel r) (whiteLevel r)] else [])
     @ ditherOps (dither_method r) (bitDepth r)"

text \<open>
  \<open>applyDithering\<close>, lines 72-189. The checks come in the source's order; the
  \<open>try\<close> block starts after them, so only a failure of the backend is wrapped into
  \<open>Dithering failed\<close>. The timing log is not modelled.
\<close>

definition applyDithering :: "backend \<Rightarrow> js_input \<Rightarrow> DitheringOptions \<Rightarrow> error + buffer" where
  "applyDithering gm imageBuffer options =
     (case imageBuffer of
        NotABuffer \<Rightarrow> Inl InvalidInput
      | Buffer bytes \<Rightarrow>
          (let r = resolveOptions options in
           if dither_method r \<notin> set [''floyd-steinberg'', ''ordered'', ''none'']
             then Inl (InvalidOption (BadMethod (dither_method r)))
           else if bitDepth r \<notin> set [1, 2, 4, 8]
             then Inl (InvalidOption (BadBitDepth (bitDepth r)))
           else if blackLevel r < 0 \<or> blackLevel r > 100 \<or> whiteLevel r < 0 \<or> whiteLevel r > 100
             then Inl (InvalidOption LevelsOutOfRange)
           else if blackLevel r \<ge> whiteLevel r
             then Inl (InvalidOption BlackNotBelowWhite)
           else if dither_method r = ''none'' \<and> bitDepth r = 8 \<and> blackLevel r = 0 \<and> whiteLevel r = 100
             then Inr bytes
           else (case gm bytes (pipeline r) of
                   Inl message \<Rightarrow> Inl (ProcessingFailed (''Dithering failed: '' @ message))
                 | Inr result \<Rightarrow> Inr result)))"

section \<open>The advanced dithering module (the second lib/dithering.js)\<close>

text \<open>
  The repository holds a second dithering module. Its \<open>validateOptions\<close> (lines
  132-146) returns an options object and never throws. \<open>a || d\<close> of JavaScript
  yields \<open>d\<close> when \<open>a\<close> is \<open>undefined\<close> or \<open>0\<close>.
\<close>

definition getSupportedMethods :: "string list" where
  "getSupportedMethods = [''floyd-steinberg'', ''ordered'', ''none'']"

definition getSupportedBitDepths :: "int list" where
  "getSupportedBitDepths = [1, 2, 4, 8]"

definition js_or :: "int option \<Rightarrow> int \<Rightarrow> int" where
  "js_or a d = (case a of None \<Rightarrow> d | Some x \<Rightarrow> if x = 0 then d else x)"

definition adv_validateOptions :: "DitheringOptions \<Rightarrow> ResolvedOptions" where
  "adv_validateOptions options =
     (let validMethods = getSupportedMethods;
          validBitDepths = getSupportedBitDepths
      in \<lparr> dither_method = (case opt_method options of
                        Some m \<Rightarrow> if m \<in> set validMethods then m else ''floyd-steinberg''
                      | None \<Rightarrow> ''floyd-steinberg''),
            bitDepth = (case opt_bitDepth options of
                          Some b \<Rightarrow> if b \<in> set validBitDepths then b else 2
                        | None \<Rightarrow> 2),
            gammaCorrection = (case opt_gammaCorrection options of Some g \<Rightarrow> g | None \<Rightarrow> True),
            blackLevel = max 0 (min 100 (js_or (opt_blackLevel options) 0)),
            whiteLevel = max 0 (min 100 (js_or (opt_whiteLevel options) 100)) \<rparr>)"

text \<open>
  \<open>applyDithering\<close> of this module (its lines 22-109) makes no check at all: it
  applies its own defaults (bit depth 2), builds the chain and streams the result as PNG.
  \<open>image.threshold("50%")\<close> is the same command-line option as \<open>threshold(50, true)\<close>.
  A stream error rejects with that error, an empty output with
  \<^verbatim>\<open>'GraphicsMagick produced empty output'\<close>.
\<close>

definition adv_resolveOptions :: "DitheringOptions \<Rightarrow> ResolvedOptions" where
  "adv_resolveOptions options =
     \<lparr> dither_method = default_to ''floyd-steinberg'' (opt_method options),
       bitDepth = default_to 2 (opt_bitDepth options),
       gammaCorrection = default_to True (opt_gammaCorrection options),
       blackLevel = default_to 0 (opt_blackLevel options),
       whiteLevel = default_to 100 (opt_whiteLevel options) \<rparr>"

definition adv_pipeline :: "ResolvedOptions \<Rightarrow> gm_op list" where
  "adv_pipeline r =
     (if gammaCorrection r then [NoProfile] else [])
     @ [Colorspace ''Gray'']
     @ (if blackLevel r > 0 \<or> whiteLevel r < 100 then [Level (blackLevel r) (whiteLevel r)] else [])
     @ (if bitDepth r = 1 then
          (if dither_method r = ''floyd-steinberg'' then [Dither True, Monochrome]
           else if dither_method r = ''ordered'' then [Dither False, Monochrome]
           else [Threshold 50 True])
        else if bitDepth r = 2 \<or> bitDepth r = 4 \<or> bitDepth r = 8 then
          (if dither_method r = ''floyd-steinberg'' then [Dither True, Colors (2 ^ nat (bitDepth r))]
           else if dither_method r = ''ordered'' then [Dither False, Colors (2 ^ nat (bitDepth r))]
           else [Colors (2 ^ nat (bitDepth r))])
        else [])"

definition adv_applyDithering :: "backend \<Rightarrow> buffer \<Rightarrow> DitheringOptions \<Rightarrow> error + buffer" where
  "adv_applyDithering gm imageBuffer options =
     (case gm imageBuffer (adv_pipeline (adv_resolveOptions options)) of
        Inl message \<Rightarrow> Inl (ProcessingFailed message)
      | Inr result \<Rightarrow>
          if length result = 0 then Inl (ProcessingFailed ''GraphicsMagick produced empty output'')
          else Inr result)"

text \<open>A backend that is not installed: every call fails.\<close>

definition unavailable_backend :: backend where
  "unavailable_backend bytes ops = Inl ''gm: command not found''"

text \<open>A backend that answers every call with the four bytes a PNG file starts with.\<close>

definition stub_backend :: backend where
  "stub_backend bytes ops = Inr [0x89, 0x50, 0x4E, 0x47]"

section \<open>bmp.js: the BMP encoder\<close>

text \<open>
  JavaScript numbers. Widths and heights are pixel counts (\<open>nat\<close>). The constructor
  divides the bit depth by 8, so row sizes can be fractions: they are rationals here. Every
  number the encoder computes is an integer multiple of 1/8, which doubles represent
  exactly below \<open>2^53\<close>; beyond \<open>2^32\<close> the header writes fail anyway, and
  rounding is monotone, so the range checks decide the same way on the exact values.
  \<open>a % b\<close> keeps the sign of \<open>a\<close>: it is \<open>a - b * trunc (a / b)\<close>.
\<close>

definition js_trunc :: "rat \<Rightarrow> int" where
  "js_trunc q = (if q < 0 then \<lceil>q\<rceil> else \<lfloor>q\<rfloor>)"

definition js_rem :: "rat \<Rightarrow> rat \<Rightarrow> rat" where
  "js_rem a b = a - b * of_int (js_trunc (a / b))"

subsection \<open>Node's Buffer methods\<close>

text \<open>
  \<open>then_do\<close> sequences two steps, the second not run when the first throws;
  \<open>for_each\<close> is a \<open>for\<close> loop over the values its counter takes, threading the state.
\<close>

definition then_do :: "error + 'a \<Rightarrow> ('a \<Rightarrow> error + 'b) \<Rightarrow> error + 'b" where
  "then_do m f = (case m of Inl e \<Rightarrow> Inl e | Inr x \<Rightarrow> f x)"

fun for_each :: "'i list \<Rightarrow> ('i \<Rightarrow> 's \<Rightarrow> error + 's) \<Rightarrow> 's \<Rightarrow> error + 's" where
  "for_each [] body s = Inr s"
| "for_each (i # rest) body s = then_do (body i s) (for_each rest body)"

text \<open>
  \<open>Buffer.alloc(size)\<close>: a zero-filled buffer; a fractional size is truncated (the
  typed-array constructor converts it with \<open>ToIndex\<close>). Running out of memory is not
  modelled.
\<close>

definition alloc :: "rat \<Rightarrow> buffer" where
  "alloc n = replicate (nat \<lfloor>n\<rfloor>) 0"

text \<open>
  \<open>buf[offset]\<close> is \<open>undefined\<close>, and \<open>readUInt8\<close> and \<open>writeUInt8\<close> throw
  \<open>ERR_OUT_OF_RANGE\<close>, unless the offset is an integer from 0 to length - 1.
\<close>

definition is_index :: "buffer \<Rightarrow> rat \<Rightarrow> bool" where
  "is_index buf off = (of_int \<lfloor>off\<rfloor> = off \<and> 0 \<le> off \<and> off < of_nat (length buf))"

definition readUInt8 :: "buffer \<Rightarrow> rat \<Rightarrow> error + byte" where
  "readUInt8 buf off = (if is_index buf off then Inr (buf ! nat \<lfloor>off\<rfloor>) else Inl RangeError)"

definition writeUInt8 :: "byte \<Rightarrow> rat \<Rightarrow> buffer \<Rightarrow> error + buffer" where
  "writeUInt8 v off buf =
     (if is_index buf off then Inr (buf[nat \<lfloor>off\<rfloor> := v]) else Inl RangeError)"

text \<open>
  Indexing the sample buffer, \<open>imageData[i]\<close>: \<open>undefined\<close> (\<open>None\<close>) past the end.
  Written with \<open>writeUInt8\<close>, \<open>undefined\<close> becomes \<open>NaN\<close>, which passes the range
  check and is stored as 0.
\<close>

definition js_index :: "buffer \<Rightarrow> nat \<Rightarrow> byte option" where
  "js_index buf i = (if i < length buf then Some (buf ! i) else None)"

definition js_to_byte :: "byte option \<Rightarrow> byte" where
  "js_to_byte v = (case v of None \<Rightarrow> 0 | Some b \<Rightarrow> b)"

text \<open>
  The multi-byte writes store the low byte and shift right by 8, byte after byte
  (\<open>buf[offset++] = value; value = value >>> 8\<close>), after a check of the value's range
  and of the offset. A fractional value is truncated by the store.
\<close>

fun le_bytes :: "nat \<Rightarrow> nat \<Rightarrow> byte list" where
  "le_bytes 0 v = []"
| "le_bytes (Suc k) v = of_nat (v mod 256) # le_bytes k (v div 256)"

fun patch :: "byte list \<Rightarrow> nat \<Rightarrow> buffer \<Rightarrow> buffer" where
  "patch [] off buf = buf"
| "patch (b # bs) off buf = patch bs (Suc off) (buf[off := b])"

definition write_bytes :: "byte list \<Rightarrow> nat \<Rightarrow> buffer \<Rightarrow> error + buffer" where
  "write_bytes bs off buf =
     (if off + length bs \<le> length buf then Inr (patch bs off buf) else Inl RangeError)"

definition writeUInt32LE :: "rat \<Rightarrow> nat \<Rightarrow> buffer \<Rightarrow> error + buffer" where
  "writeUInt32LE v off buf =
     (if v > 4294967295 \<or> v < 0 then Inl RangeError
      else write_bytes (le_bytes 4 (nat \<lfloor>v\<rfloor>)) off buf)"

definition writeInt32LE :: "rat \<Rightarrow> nat \<Rightarrow> buffer \<Rightarrow> error + buffer" where
  "writeInt32LE v off buf =
     (if v > 2147483647 \<or> v < - 2147483648 then Inl RangeError
      else write_bytes (le_bytes 4 (nat (js_trunc v mod 4294967296))) off buf)"

definition writeUInt16LE :: "rat \<Rightarrow> nat \<Rightarrow> buffer \<Rightarrow> error + buffer" where
  "writeUInt16LE v off buf =
     (if v > 65535 \<or> v < 0 then Inl RangeError
      else write_bytes (le_bytes 2 (nat \<lfloor>v\<rfloor>)) off buf)"

text \<open>\<open>header.write("BM", 0, 2, "ascii")\<close>: the two character codes.\<close>

definition write_BM :: "nat \<Rightarrow> buffer \<Rightarrow> error + buffer" where
  "write_BM off buf = write_bytes [0x42, 0x4D] off buf"

text \<open>Reading a field back, as \<open>readUInt32LE\<close> and \<open>readInt32LE\<close> of a non-negative value do.\<close>

definition readUInt32LE :: "buffer \<Rightarrow> nat \<Rightarrow> nat" where
  "readUInt32LE buf off =
     unat (buf ! off) + 256 * unat (buf ! (off + 1)) + 65536 * unat (buf ! (off + 2))
     + 16777216 * unat (buf ! (off + 3))"

subsection \<open>The class\<close>

definition SUPPORTED_BITS_PER_PIXEL :: "int list" where
  "SUPPORTED_BITS_PER_PIXEL = [1, 24]"

record BMPEncoder =
  width :: nat
  height :: nat
  bitsPerPixel :: int
  padding :: rat
  paddedWidthBytes :: rat

text \<open>The constructor, lines 33-47.\<close>

definition new_BMPEncoder :: "nat \<Rightarrow> nat \<Rightarrow> int \<Rightarrow> error + BMPEncoder" where
  "new_BMPEncoder w h bpp =
     (if bpp \<notin> set SUPPORTED_BITS_PER_PIXEL then Inl UnsupportedDepth
      else
        (let rowBytes = of_nat w * (of_int bpp / 8);
             pad = js_rem (4 - js_rem rowBytes 4) 4
         in Inr \<lparr> width = w, height = h, bitsPerPixel = bpp, padding = pad,
                  paddedWidthBytes = of_int \<lceil>rowBytes\<rceil> + pad \<rparr>))"

text \<open>\<open>createHeader\<close>, lines 82-124: the writes in the source's order.\<close>

definition createHeader :: "BMPEncoder \<Rightarrow> error + buffer" where
  "createHeader this =
     (let headerSize = (if bitsPerPixel this = 1 then 62 else 54);
          fileSize = headerSize + of_nat (height this) * paddedWidthBytes this;
          imageSize = of_nat (width this) * of_nat (height this) * (of_int (bitsPerPixel this) / 8);
          paletteSize = (if bitsPerPixel this = 1 then 2 else 0)
      in for_each
           ([ write_BM 0,
              writeUInt32LE fileSize 2,
              writeUInt32LE 0 6,
              writeUInt32LE headerSize 10,
              writeUInt32LE 40 14,
              writeInt32LE (of_nat (width this)) 18,
              writeInt32LE (of_nat (height this)) 22,
              writeUInt16LE 1 26,
              writeUInt16LE (of_int (bitsPerPixel this)) 28,
              writeUInt32LE 0 30,
              writeUInt32LE imageSize 34,
              writeInt32LE 0 38,
              writeInt32LE 0 42,
              writeUInt32LE paletteSize 46,
              writeUInt32LE paletteSize 50 ]
            @ (if bitsPerPixel this = 1
               then [writeUInt32LE 0x00000000 54, writeUInt32LE 0x00FFFFFF 58]
               else []))
           (\<lambda>write header. write header)
           (alloc headerSize))"

text \<open>
  \<open>createPixelData\<close>, lines 133-186. The state of the loops is the pixel buffer and
  \<open>offset\<close>. The padding loop \<open>for (p = 0; p < this.padding; p++)\<close> runs for the
  integers below the padding, that is \<open>\<lceil>padding\<rceil>\<close> times. The bit operations of
  the 1-bit branch work on a byte read from the buffer and a mask below 256, so their
  results are bytes.
\<close>

definition write_padding :: "BMPEncoder \<Rightarrow> buffer \<times> nat \<Rightarrow> error + buffer \<times> nat" where
  "write_padding this =
     for_each [0..<nat \<lceil>padding this\<rceil>]
       (\<lambda>p (pixelData, offset).
          then_do (writeUInt8 0 (of_nat offset) pixelData) (\<lambda>pixelData. Inr (pixelData, offset + 1)))"

definition mono_pixel :: "BMPEncoder \<Rightarrow> buffer \<Rightarrow> nat \<Rightarrow> nat \<Rightarrow> buffer \<Rightarrow> error + buffer" where
  "mono_pixel this imageData y x pixelData =
     (let pixel = js_index imageData (y * width this + x);
          byteIndex = of_nat (height this - 1 - y) * paddedWidthBytes this + of_nat (x div 8);
          bitIndex = x mod 8
      in then_do (readUInt8 pixelData byteIndex)
           (\<lambda>currentByte.
              if pixel = Some 0xFF
              then writeUInt8 (currentByte OR push_bit (7 - bitIndex) 1) byteIndex pixelData
              else writeUInt8 (currentByte AND NOT (push_bit (7 - bitIndex) 1)) byteIndex pixelData))"

definition mono_row :: "BMPEncoder \<Rightarrow> buffer \<Rightarrow> nat \<Rightarrow> buffer \<times> nat \<Rightarrow> error + buffer \<times> nat" where
  "mono_row this imageData y =
     (\<lambda>(pixelData, offset).
        then_do (for_each [0..<width this] (mono_pixel this imageData y) pixelData)
          (\<lambda>pixelData.
             write_padding this (pixelData, offset + nat \<lceil>of_nat (width this) / (8 :: rat)\<rceil>)))"

definition rgb_pixel :: "BMPEncoder \<Rightarrow> buffer \<Rightarrow> nat \<Rightarrow> nat \<Rightarrow> buffer \<times> nat \<Rightarrow> error + buffer \<times> nat" where
  "rgb_pixel this imageData y x =
     (\<lambda>(pixelData, offset).
        let sourceIndex = (y * width this + x) * 3;
            r = js_index imageData sourceIndex;
            g = js_index imageData (sourceIndex + 1);
            b = js_index imageData (sourceIndex + 2)
        in then_do (writeUInt8 (js_to_byte b) (of_nat offset) pixelData) (\<lambda>pixelData.
           then_do (writeUInt8 (js_to_byte g) (of_nat (offset + 1)) pixelData) (\<lambda>pixelData.
           then_do (writeUInt8 (js_to_byte r) (of_nat (offset + 2)) pixelData) (\<lambda>pixelData.
           Inr (pixelData, offset + 3)))))"

definition rgb_row :: "BMPEncoder \<Rightarrow> buffer \<Rightarrow> nat \<Rightarrow> buffer \<times> nat \<Rightarrow> error + buffer \<times> nat" where
  "rgb_row this imageData y st =
     then_do (for_each [0..<width this] (rgb_pixel this imageData y) st) (write_padding this)"

definition createPixelData :: "BMPEncoder \<Rightarrow> buffer \<Rightarrow> error + buffer" where
  "createPixelData this imageData =
     (let pixelData = alloc (of_nat (height this) * paddedWidthBytes this) in
      if bitsPerPixel this = 1 then
        then_do (for_each [0..<height this] (mono_row this imageData) (pixelData, 0))
          (\<lambda>(pixelData, offset). Inr pixelData)
      else if bitsPerPixel this = 24 then
        then_do (for_each (rev [0..<height this]) (rgb_row this imageData) (pixelData, 0))
          (\<lambda>(pixelData, offset). Inr pixelData)
      else Inr pixelData)"

text \<open>\<open>encode\<close>, lines 54-58.\<close>

definition encode :: "BMPEncoder \<Rightarrow> buffer \<Rightarrow> error + buffer" where
  "encode this data =
     then_do (createHeader this) (\<lambda>header.
     then_do (createPixelData this data) (\<lambda>pixelData.
     Inr (header @ pixelData)))"

text \<open>\<open>new BMPEncoder(w, h, bpp).encode(data)\<close>.\<close>

definition bmp_encode :: "nat \<Rightarrow> nat \<Rightarrow> int \<Rightarrow> buffer \<Rightarrow> error + buffer" where
  "bmp_encode w h bpp data = then_do (new_BMPEncoder w h bpp) (\<lambda>this. encode this data)"

text \<open>
  A row of \<open>n\<close> whole bytes, padded to the next multiple of 4 as the constructor does
  it: \<open>n + (4 - n % 4) % 4\<close>.
\<close>

definition padded_row :: "nat \<Rightarrow> nat" where
  "padded_row n = n + (4 - n mod 4) mod 4"

section \<open>Properties of the dithering engine\<close>

text \<open>For a Buffer, \<open>applyDithering\<close> is the chain of checks on the resolved options.\<close>

lemma applyDithering_Buffer:
  "applyDithering gm (Buffer x) options =
     (if dither_method (resolveOptions options) \<notin> set [''floyd-steinberg'', ''ordered'', ''none'']
        then Inl (InvalidOption (BadMethod (dither_method (resolveOptions options))))
      else if bitDepth (resolveOptions options) \<notin> set [1, 2, 4, 8]
        then Inl (InvalidOption (BadBitDepth (bitDepth (resolveOptions options))))
      else if blackLevel (resolveOptions options) < 0 \<or> blackLevel (resolveOptions options) > 100
              \<or> whiteLevel (resolveOptions options) < 0 \<or> whiteLevel (resolveOptions options) > 100
        then Inl (InvalidOption LevelsOutOfRange)
      else if blackLevel (resolveOptions options) \<ge> whiteLevel (resolveOptions options)
        then Inl (InvalidOption BlackNotBelowWhite)
      else if dither_method (resolveOptions options) = ''none'' \<and> bitDepth (resolveOptions options) = 8
              \<and> blackLevel (resolveOptions options) = 0 \<and> whiteLevel (resolveOptions options) = 100
        then Inr x
      else (case gm x (pipeline (resolveOptions options)) of
              Inl message \<Rightarrow> Inl (ProcessingFailed (''Dithering failed: '' @ message))
            | Inr result \<Rightarrow> Inr result))"
  unfolding applyDithering_def Let_def by simp

lemma applyDithering_rejects:
  assumes "dither_method (resolveOptions options) \<notin> {''floyd-steinberg'', ''ordered'', ''none''}
        \<or> bitDepth (resolveOptions options) \<notin> {1, 2, 4, 8}
        \<or> blackLevel (resolveOptions options) < 0 \<or> blackLevel (resolveOptions options) > 100
        \<or> whiteLevel (resolveOptions options) < 0 \<or> whiteLevel (resolveOptions options) > 100
        \<or> blackLevel (resolveOptions options) \<ge> whiteLevel (resolveOptions options)"
  shows "\<exists>fault. \<forall>gm. applyDithering gm (Buffer x) options = Inl (InvalidOption fault)"
proof -
  define r where "r = resolveOptions options"
  have bad: "dither_method r \<notin> set [''floyd-steinberg'', ''ordered'', ''none'']
        \<or> bitDepth r \<notin> set [1, 2, 4, 8]
        \<or> (blackLevel r < 0 \<or> blackLevel r > 100 \<or> whiteLevel r < 0 \<or> whiteLevel r > 100)
        \<or> blackLevel r \<ge> whiteLevel r"
    using assms unfolding r_def by simp
  note eq = applyDithering_Buffer [of _ x options, folded r_def]
  show ?thesis
  proof (cases "dither_method r \<notin> set [''floyd-steinberg'', ''ordered'', ''none'']")
    case True
    then show ?thesis unfolding eq by (intro exI[of _ "BadMethod (dither_method r)"]) simp
  next
    case m: False
    show ?thesis
    proof (cases "bitDepth r \<notin> set [1, 2, 4, 8]")
      case True
      with m show ?thesis unfolding eq by (intro exI[of _ "BadBitDepth (bitDepth r)"]) simp
    next
      case b: False
      show ?thesis
      proof (cases "blackLevel r < 0 \<or> blackLevel r > 100 \<or> whiteLevel r < 0 \<or> whiteLevel r > 100")
        case True
        with m b show ?thesis unfolding eq by (intro exI[of _ LevelsOutOfRange]) simp
      next
        case l: False
        with bad m b have "blackLevel r \<ge> whiteLevel r" by blast
        with m b l show ?thesis unfolding eq by (intro exI[of _ BlackNotBelowWhite]) simp
      qed
    qed
  qed
qed

text \<open>
  What the code asks of the backend for Floyd-Steinberg: the \<open>dither(true)\<close> flag,
  followed by \<open>monochrome()\<close> for 1 bit and by \<open>colors(2^bitDepth)\<close> for 2 and 4
  bits. The diffusion itself is done inside GraphicsMagick.
\<close>

lemma floyd_steinberg_ops:
  "ditherOps ''floyd-steinberg'' bd =
     (if bd = 1 then [Dither True, Monochrome]
      else if bd = 2 \<or> bd = 4 then [Dither True, Colors (2 ^ nat bd)]
      else [Dither True])"
  by (simp add: ditherOps_def)

text \<open>
  C1. Identity fast path: with method \<open>none\<close>, bit depth 8, black level 0 and white
  level 100, \<open>applyDithering\<close> returns the input buffer itself, whatever the bytes, the
  \<open>gammaCorrection\<close> flag and the backend are: the backend is not called.
\<close>

theorem C1_identity_fast_path:
  "applyDithering gm (Buffer x)
     \<lparr> opt_method = Some ''none'', opt_bitDepth = Some 8, opt_gammaCorrection = g,
       opt_blackLevel = Some 0, opt_whiteLevel = Some 100 \<rparr> = Inr x"
  by (simp add: applyDithering_def resolveOptions_def default_to_def)

theorem C1_identity_fast_path_witness:
  "applyDithering unavailable_backend (Buffer [1, 2, 3])
     \<lparr> opt_method = Some ''none'', opt_bitDepth = Some 8, opt_gammaCorrection = None,
       opt_blackLevel = Some 0, opt_whiteLevel = Some 100 \<rparr> = Inr [1, 2, 3]"
  by (rule C1_identity_fast_path)

text \<open>
  C2, as claimed, fails on the advanced dithering module. Its \<open>validateOptions\<close> does
  not reject a black level of 150 but silently clamps it to 100, and the object returned
  has its black level equal to its white level. Its \<open>applyDithering\<close>, given a black
  level of 60 above a white level of 50, does not fail: it hands the levels to the backend
  and returns what the backend returns.
\<close>

theorem C2_validateOptions_clamps:
  "adv_validateOptions
     \<lparr> opt_method = None, opt_bitDepth = None, opt_gammaCorrection = None,
       opt_blackLevel = Some 150, opt_whiteLevel = Some 100 \<rparr>
   = \<lparr> dither_method = ''floyd-steinberg'', bitDepth = 2, gammaCorrection = True,
       blackLevel = 100, whiteLevel = 100 \<rparr>
   \<and> adv_pipeline (adv_resolveOptions
        \<lparr> opt_method = None, opt_bitDepth = None, opt_gammaCorrection = None,
          opt_blackLevel = Some 60, opt_whiteLevel = Some 50 \<rparr>)
     = [NoProfile, Colorspace ''Gray'', Level 60 50, Dither True, Colors 4]
   \<and> adv_applyDithering stub_backend [1, 2, 3]
        \<lparr> opt_method = None, opt_bitDepth = None, opt_gammaCorrection = None,
          opt_blackLevel = Some 60, opt_whiteLevel = Some 50 \<rparr>
     = Inr [0x89, 0x50, 0x4E, 0x47]"
  by (simp add: adv_validateOptions_def js_or_def adv_applyDithering_def adv_pipeline_def
      adv_resolveOptions_def default_to_def stub_backend_def)

text \<open>
  C2, as the code has it. \<open>applyDithering\<close> of lib/dithering.js rejects, with an
  \<open>InvalidOption\<close> error that does not depend on the backend, every options object whose
  method (after defaulting) is not one of the three, or whose bit depth is not 1, 2, 4 or
  8, or one of whose levels is outside 0..100, or whose black level is not below its white
  level. The advanced dithering module rejects nothing. Its \<open>validateOptions\<close> always
  returns an options object: a supported method and bit depth are kept and any other, or
  none, becomes floyd-steinberg and 2; \<open>gammaCorrection\<close> is kept and is true when
  omitted; a black level is clamped into 0..100 and is 0 when omitted; a white level is
  clamped into 0..100 and is 100 when omitted or 0. Its \<open>applyDithering\<close> never fails
  with \<open>InvalidOption\<close>.
\<close>

theorem C2_invalid_options_rejected:
  "(dither_method (resolveOptions options) \<notin> {''floyd-steinberg'', ''ordered'', ''none''}
    \<or> bitDepth (resolveOptions options) \<notin> {1, 2, 4, 8}
    \<or> blackLevel (resolveOptions options) < 0 \<or> blackLevel (resolveOptions options) > 100
    \<or> whiteLevel (resolveOptions options) < 0 \<or> whiteLevel (resolveOptions options) > 100
    \<or> blackLevel (resolveOptions options) \<ge> whiteLevel (resolveOptions options)
    \<longrightarrow> (\<exists>fault. \<forall>gm. applyDithering gm (Buffer x) options = Inl (InvalidOption fault)))
   \<and> dither_method (adv_validateOptions options) \<in> set getSupportedMethods
   \<and> bitDepth (adv_validateOptions options) \<in> set getSupportedBitDepths
   \<and> 0 \<le> blackLevel (adv_validateOptions options) \<and> blackLevel (adv_validateOptions options) \<le> 100
   \<and> 0 \<le> whiteLevel (adv_validateOptions options) \<and> whiteLevel (adv_validateOptions options) \<le> 100
   \<and> adv_applyDithering gm' x options \<noteq> Inl (InvalidOption fault')
   \<and> dither_method (adv_validateOptions options)
       = (case opt_method options of
            None \<Rightarrow> ''floyd-steinberg''
          | Some m \<Rightarrow> if m = ''floyd-steinberg'' \<or> m = ''ordered'' \<or> m = ''none'' then m
                      else ''floyd-steinberg'')
   \<and> bitDepth (adv_validateOptions options)
       = (case opt_bitDepth options of
            None \<Rightarrow> 2
          | Some b \<Rightarrow> if b = 1 \<or> b = 2 \<or> b = 4 \<or> b = 8 then b else 2)
   \<and> gammaCorrection (adv_validateOptions options)
       = (case opt_gammaCorrection options of None \<Rightarrow> True | Some g \<Rightarrow> g)
   \<and> blackLevel (adv_validateOptions options)
       = (case opt_blackLevel options of
            None \<Rightarrow> 0
          | Some b \<Rightarrow> if b < 0 then 0 else if b > 100 then 100 else b)
   \<and> whiteLevel (adv_validateOptions options)
       = (case opt_whiteLevel options of
            None \<Rightarrow> 100
          | Some v \<Rightarrow> if v = 0 then 100 else if v < 0 then 0 else if v > 100 then 100 else v)"
proof -
  have e1: "dither_method (adv_validateOptions options)
       = (case opt_method options of
            None \<Rightarrow> ''floyd-steinberg''
          | Some m \<Rightarrow> if m = ''floyd-steinberg'' \<or> m = ''ordered'' \<or> m = ''none'' then m
                      else ''floyd-steinberg'')"
    by (simp add: adv_validateOptions_def getSupportedMethods_def split: option.splits)
  have e2: "bitDepth (adv_validateOptions options)
       = (case opt_bitDepth options of
            None \<Rightarrow> 2
          | Some b \<Rightarrow> if b = 1 \<or> b = 2 \<or> b = 4 \<or> b = 8 then b else 2)"
    by (simp add: adv_validateOptions_def getSupportedBitDepths_def split: option.splits)
  have e3: "gammaCorrection (adv_validateOptions options)
       = (case opt_gammaCorrection options of None \<Rightarrow> True | Some g \<Rightarrow> g)"
    by (simp add: adv_validateOptions_def)
  have e4: "blackLevel (adv_validateOptions options)
       = (case opt_blackLevel options of
            None \<Rightarrow> 0
          | Some b \<Rightarrow> if b < 0 then 0 else if b > 100 then 100 else b)"
    by (simp add: adv_validateOptions_def js_or_def split: option.splits)
  have e5: "whiteLevel (adv_validateOptions options)
       = (case opt_whiteLevel options of
            None \<Rightarrow> 100
          | Some v \<Rightarrow> if v = 0 then 100 else if v < 0 then 0 else if v > 100 then 100 else v)"
    by (simp add: adv_validateOptions_def js_or_def split: option.splits)
  have m: "dither_method (adv_validateOptions options) \<in> set getSupportedMethods"
    by (simp add: adv_validateOptions_def getSupportedMethods_def split: option.splits)
  have b: "bitDepth (adv_validateOptions options) \<in> set getSupportedBitDepths"
    by (simp add: adv_validateOptions_def getSupportedBitDepths_def split: option.splits)
  have l: "0 \<le> blackLevel (adv_validateOptions options) \<and> blackLevel (adv_validateOptions options) \<le> 100
     \<and> 0 \<le> whiteLevel (adv_validateOptions options) \<and> whiteLevel (adv_validateOptions options) \<le> 100"
    by (simp add: adv_validateOptions_def)
  have a: "adv_applyDithering gm' x options \<noteq> Inl (InvalidOption fault')"
    by (simp add: adv_applyDithering_def split: sum.split)
  from applyDithering_rejects [of options x] have r:
    "dither_method (resolveOptions options) \<notin> {''floyd-steinberg'', ''ordered'', ''none''}
      \<or> bitDepth (resolveOptions options) \<notin> {1, 2, 4, 8}
      \<or> blackLevel (resolveOptions options) < 0 \<or> blackLevel (resolveOptions options) > 100
      \<or> whiteLevel (resolveOptions options) < 0 \<or> whiteLevel (resolveOptions options) > 100
      \<or> blackLevel (resolveOptions options) \<ge> whiteLevel (resolveOptions options)
      \<longrightarrow> (\<exists>fault. \<forall>gm. applyDithering gm (Buffer x) options = Inl (InvalidOption fault))"
    by blast
  show ?thesis
    by (intro conjI r m b a e1 e2 e3 e4 e5) (simp_all add: l)
qed

theorem C2_invalid_options_rejected_witness:
  "(\<exists>fault. \<forall>gm. applyDithering gm (Buffer [1, 2, 3])
        \<lparr> opt_method = None, opt_bitDepth = None, opt_gammaCorrection = None,
          opt_blackLevel = Some 60, opt_whiteLevel = Some 50 \<rparr> = Inl (InvalidOption fault))
   \<and> blackLevel (adv_validateOptions
        \<lparr> opt_method = None, opt_bitDepth = None, opt_gammaCorrection = None,
          opt_blackLevel = Some 60, opt_whiteLevel = Some 50 \<rparr>) \<le> 100
   \<and> adv_applyDithering stub_backend [1, 2, 3]
        \<lparr> opt_method = None, opt_bitDepth = None, opt_gammaCorrection = None,
          opt_blackLevel = Some 60, opt_whiteLevel = Some 50 \<rparr> \<noteq> Inl (InvalidOption BlackNotBelowWhite)
   \<and> adv_validateOptions
        \<lparr> opt_method = None, opt_bitDepth = None, opt_gammaCorrection = None,
          opt_blackLevel = Some 60, opt_whiteLevel = Some 50 \<rparr>
     = \<lparr> dither_method = ''floyd-steinberg'', bitDepth = 2, gammaCorrection = True,
         blackLevel = 60, whiteLevel = 50 \<rparr>"
  using C2_invalid_options_rejected
    [of "\<lparr> opt_method = None, opt_bitDepth = None, opt_gammaCorrection = None,
           opt_blackLevel = Some 60, opt_whiteLevel = Some 50 \<rparr>" "[1, 2, 3]"
        stub_backend BlackNotBelowWhite]
  by (simp add: resolveOptions_def default_to_def)

text \<open>
  C8, as claimed, fails on an empty buffer: with the fast-path options the empty buffer
  is returned as the result, not rejected.
\<close>

theorem C8_empty_buffer_accepted:
  "applyDithering unavailable_backend (Buffer [])
     \<lparr> opt_method = Some ''none'', opt_bitDepth = Some 8, opt_gammaCorrection = None,
       opt_blackLevel = Some 0, opt_whiteLevel = Some 100 \<rparr> = Inr []"
  by (simp add: applyDithering_def resolveOptions_def default_to_def)

text \<open>
  C8, as the code has it: \<open>applyDithering\<close> fails with \<open>InvalidInput\<close> exactly when
  its first argument is not a Buffer, whatever the options and the backend are (the check
  is the first statement of the function). A Buffer, empty or not, an image or not, is
  never answered with \<open>InvalidInput\<close>.
\<close>

theorem C8_invalid_input_iff_not_buffer:
  "(applyDithering gm input options = Inl InvalidInput) = (input = NotABuffer)"
proof (cases input)
  case NotABuffer
  then show ?thesis by (simp add: applyDithering_def)
next
  case (Buffer x)
  have "applyDithering gm (Buffer x) options \<noteq> Inl InvalidInput"
    unfolding applyDithering_Buffer by (simp split: sum.split)
  with Buffer show ?thesis by simp
qed

theorem C8_invalid_input_iff_not_buffer_witness:
  "applyDithering stub_backend NotABuffer
     \<lparr> opt_method = Some ''bogus'', opt_bitDepth = None, opt_gammaCorrection = None,
       opt_blackLevel = None, opt_whiteLevel = None \<rparr> = Inl InvalidInput
   \<and> applyDithering stub_backend (Buffer [])
     \<lparr> opt_method = None, opt_bitDepth = None, opt_gammaCorrection = None,
       opt_blackLevel = None, opt_whiteLevel = None \<rparr> \<noteq> Inl InvalidInput"
  using C8_invalid_input_iff_not_buffer [of stub_backend NotABuffer]
    C8_invalid_input_iff_not_buffer [of stub_backend "Buffer []"]
  by simp



section \<open>Facts about the Buffer methods\<close>

lemma then_do_Inr [simp]: "then_do (Inr x) f = f x"
  by (simp add: then_do_def)

lemma then_do_Inl [simp]: "then_do (Inl e) f = Inl e"
  by (simp add: then_do_def)

lemma then_do_eq_Inr: "(then_do m f = Inr y) = (\<exists>x. m = Inr x \<and> f x = Inr y)"
  by (cases m) simp_all

lemma length_le_bytes [simp]: "length (le_bytes k v) = k"
  by (induction k arbitrary: v) simp_all

lemma length_patch [simp]: "length (patch bs off buf) = length buf"
  by (induction bs arbitrary: off buf) simp_all

lemma nth_patch:
  "i < length buf \<Longrightarrow>
   patch bs off buf ! i = (if off \<le> i \<and> i < off + length bs then bs ! (i - off) else buf ! i)"
proof (induction bs arbitrary: off buf)
  case Nil
  then show ?case by auto
next
  case (Cons b bs)
  show ?case
  proof (cases "i = off")
    case True
    with Cons show ?thesis by simp
  next
    case False
    with Cons show ?thesis by (auto simp: nth_Cons' Suc_diff_le)
  qed
qed

lemma le_bytes_4:
  "le_bytes 4 v = [of_nat (v mod 256), of_nat (v div 256 mod 256),
                   of_nat (v div 65536 mod 256), of_nat (v div 16777216 mod 256)]"
proof -
  have four: "le_bytes 4 v = le_bytes (Suc (Suc (Suc (Suc 0)))) v"
    by (rule arg_cong [where f = "\<lambda>k. le_bytes k v"]) simp
  have "le_bytes (Suc (Suc (Suc (Suc 0)))) v =
     [of_nat (v mod 256), of_nat (v div 256 mod 256),
      of_nat (v div 256 div 256 mod 256), of_nat (v div 256 div 256 div 256 mod 256)]"
    by simp
  moreover have "v div 256 div 256 = v div 65536" "v div 256 div 256 div 256 = v div 16777216"
    by (simp_all add: div_mult2_eq [symmetric])
  ultimately show ?thesis unfolding four by simp
qed

lemma le_bytes_2:
  "le_bytes 2 v = [of_nat (v mod 256), of_nat (v div 256 mod 256)]"
proof -
  have two: "le_bytes 2 v = le_bytes (Suc (Suc 0)) v"
    by (rule arg_cong [where f = "\<lambda>k. le_bytes k v"]) simp
  show ?thesis unfolding two by simp
qed

lemma write_bytes_ok:
  "off + length bs \<le> length buf \<Longrightarrow> write_bytes bs off buf = Inr (patch bs off buf)"
  by (simp add: write_bytes_def)

lemma writeUInt32LE_ok:
  "0 \<le> v \<Longrightarrow> v \<le> 4294967295 \<Longrightarrow> off + 4 \<le> length buf \<Longrightarrow>
   writeUInt32LE v off buf = Inr (patch (le_bytes 4 (nat \<lfloor>v\<rfloor>)) off buf)"
  by (simp add: writeUInt32LE_def write_bytes_def)

lemma writeInt32LE_ok:
  assumes "n \<le> 2147483647" and "off + 4 \<le> length buf"
  shows "writeInt32LE (of_nat n) off buf = Inr (patch (le_bytes 4 n) off buf)"
proof -
  have "js_trunc (of_nat n) = int n"
    by (simp add: js_trunc_def)
  moreover have "int n mod 4294967296 = int n"
    using assms(1) by simp
  moreover have "(of_nat n :: rat) \<le> of_nat 2147483647"
    using assms(1) by (simp only: of_nat_le_iff)
  then have "(of_nat n :: rat) \<le> 2147483647"
    by simp
  moreover have "(0 :: rat) \<le> of_nat n"
    by simp
  then have "\<not> (of_nat n :: rat) < - 2147483648"
    by linarith
  ultimately show ?thesis
    using assms(2) by (simp add: writeInt32LE_def write_bytes_def)
qed

lemma writeUInt16LE_ok:
  "0 \<le> v \<Longrightarrow> v \<le> 65535 \<Longrightarrow> off + 2 \<le> length buf \<Longrightarrow>
   writeUInt16LE v off buf = Inr (patch (le_bytes 2 (nat \<lfloor>v\<rfloor>)) off buf)"
  by (simp add: writeUInt16LE_def write_bytes_def)

lemma unat_byte_of_nat: "unat (of_nat (k mod 256) :: byte) = k mod 256"
  by (simp add: unat_of_nat)

lemma le_sum_4:
  assumes "v < 4294967296"
  shows "v mod 256 + 256 * (v div 256 mod 256) + 65536 * (v div 65536 mod 256)
        + 16777216 * (v div 16777216 mod 256) = (v :: nat)"
proof -
  have e1: "v = v mod 256 + 256 * (v div 256)"
    by simp
  have "v div 256 = v div 256 mod 256 + 256 * (v div 256 div 256)"
    by simp
  then have e2: "v div 256 = v div 256 mod 256 + 256 * (v div 65536)"
    by (simp add: div_mult2_eq [symmetric])
  have "v div 65536 = v div 65536 mod 256 + 256 * (v div 65536 div 256)"
    by simp
  then have e3: "v div 65536 = v div 65536 mod 256 + 256 * (v div 16777216)"
    by (simp add: div_mult2_eq [symmetric])
  have "v div 16777216 < 256"
    using assms by (intro less_mult_imp_div_less) simp
  then have e4: "v div 16777216 mod 256 = v div 16777216"
    by simp
  from e1 e2 e3 e4 show ?thesis
    by linarith
qed

declare patch.simps [simp del]

lemma nth_patch_le_bytes_4:
  assumes "off + 4 \<le> length buf"
  shows "patch (le_bytes 4 v) off buf ! off = of_nat (v mod 256)"
    and "patch (le_bytes 4 v) off buf ! (off + 1) = of_nat (v div 256 mod 256)"
    and "patch (le_bytes 4 v) off buf ! (off + 2) = of_nat (v div 65536 mod 256)"
    and "patch (le_bytes 4 v) off buf ! (off + 3) = of_nat (v div 16777216 mod 256)"
  using assms by (simp_all add: nth_patch le_bytes_4)

lemma readUInt32LE_patch_same:
  assumes "v < 4294967296" and "off + 4 \<le> length buf"
  shows "readUInt32LE (patch (le_bytes 4 v) off buf) off = v"
  unfolding readUInt32LE_def nth_patch_le_bytes_4 [OF assms(2)] unat_byte_of_nat
  by (rule le_sum_4 [OF assms(1)])

lemma readUInt32LE_patch_other:
  assumes "off + 4 \<le> length buf" and "off + 4 \<le> off' \<or> off' + length bs \<le> off"
  shows "readUInt32LE (patch bs off' buf) off = readUInt32LE buf off"
  using assms by (auto simp: readUInt32LE_def nth_patch)

lemma writeInt32LE_0:
  "off + 4 \<le> length buf \<Longrightarrow> writeInt32LE 0 off buf = Inr (patch (le_bytes 4 0) off buf)"
  using writeInt32LE_ok [of 0 off buf] by simp

lemma createHeader_mono_eq:
  assumes "bitsPerPixel this = 1"
    and "width this \<le> 2147483647" and "height this \<le> 2147483647"
    and "0 \<le> paddedWidthBytes this"
    and "62 + of_nat (height this) * paddedWidthBytes this \<le> 4294967295"
    and "of_nat (width this) * of_nat (height this) / 8 \<le> (4294967295 :: rat)"
  shows "createHeader this = Inr
     (patch (le_bytes 4 16777215) 58
     (patch (le_bytes 4 0) 54
     (patch (le_bytes 4 2) 50
     (patch (le_bytes 4 2) 46
     (patch (le_bytes 4 0) 42
     (patch (le_bytes 4 0) 38
     (patch (le_bytes 4 (nat \<lfloor>of_nat (width this) * of_nat (height this) / (8 :: rat)\<rfloor>)) 34
     (patch (le_bytes 4 0) 30
     (patch (le_bytes 2 1) 28
     (patch (le_bytes 2 1) 26
     (patch (le_bytes 4 (height this)) 22
     (patch (le_bytes 4 (width this)) 18
     (patch (le_bytes 4 40) 14
     (patch (le_bytes 4 62) 10
     (patch (le_bytes 4 0) 6
     (patch (le_bytes 4 (nat \<lfloor>62 + of_nat (height this) * paddedWidthBytes this\<rfloor>)) 2
     (patch [0x42, 0x4D] 0 (replicate 62 0))))))))))))))))))"
proof -
  have fs: "0 \<le> 62 + of_nat (height this) * paddedWidthBytes this"
    using assms(4) by simp
  show ?thesis
    using assms fs
    by (simp add: createHeader_def Let_def alloc_def write_BM_def write_bytes_ok
        writeUInt32LE_ok writeInt32LE_ok writeInt32LE_0 writeUInt16LE_ok)
qed

section \<open>Facts about the constructor\<close>

lemma padded_row_dvd: "4 dvd padded_row n"
proof -
  define q r where "q = n div 4" and "r = n mod 4"
  have n: "n = 4 * q + r" and "r < 4"
    by (simp_all add: q_def r_def)
  have m: "(4 * q + r) mod 4 = r"
    using \<open>r < 4\<close> by simp
  from \<open>r < 4\<close> have "r = 0 \<or> r = 1 \<or> r = 2 \<or> r = 3"
    by linarith
  then have "r + (4 - r) mod 4 = 0 \<or> r + (4 - r) mod 4 = 4"
    by (elim disjE) simp_all
  then have "4 dvd r + (4 - r) mod 4"
    by (elim disjE) simp_all
  then have "4 dvd 4 * q + (r + (4 - r) mod 4)"
    by (rule dvd_add [OF dvd_triv_left])
  then show ?thesis
    unfolding padded_row_def n m by (simp only: add.assoc)
qed

lemma js_rem_of_nat: "js_rem (of_nat a) 4 = of_nat (a mod 4)"
proof -
  have "(of_nat a :: rat) / 4 = of_nat a / of_nat 4"
    by simp
  then have "\<lfloor>(of_nat a :: rat) / 4\<rfloor> = int (a div 4)"
    by (simp only: floor_divide_of_nat_eq)
  moreover have "\<not> (of_nat a :: rat) / 4 < 0"
    by (simp add: not_less)
  ultimately have "js_rem (of_nat a) 4 = of_nat a - 4 * of_nat (a div 4)"
    by (simp add: js_rem_def js_trunc_def)
  moreover have "(of_nat (4 * (a div 4) + a mod 4) :: rat) = of_nat a"
    by (simp only: mult_div_mod_eq)
  then have "4 * of_nat (a div 4) + of_nat (a mod 4) = (of_nat a :: rat)"
    by (simp only: of_nat_add of_nat_mult of_nat_numeral)
  ultimately show ?thesis
    by linarith
qed

lemma js_rem_bounds:
  assumes "0 \<le> a" and "0 < b"
  shows "0 \<le> js_rem a b" and "js_rem a b < b"
proof -
  have nn: "\<not> a / b < 0"
    using assms by (simp add: not_less)
  have lo: "of_int \<lfloor>a / b\<rfloor> * b \<le> a"
    by (rule pos_le_divide_eq [THEN iffD1, OF assms(2) of_int_floor_le])
  have "a / b < of_int \<lfloor>a / b\<rfloor> + 1"
    by linarith
  then have hi: "a < (of_int \<lfloor>a / b\<rfloor> + 1) * b"
    by (rule pos_divide_less_eq [THEN iffD1, OF assms(2)])
  have eq: "js_rem a b = a - of_int \<lfloor>a / b\<rfloor> * b"
    using nn by (simp add: js_rem_def js_trunc_def)
  from lo show "0 \<le> js_rem a b"
    unfolding eq by simp
  from hi have "a < of_int \<lfloor>a / b\<rfloor> * b + b"
    by (simp add: distrib_right)
  then show "js_rem a b < b"
    unfolding eq by simp
qed

lemma padded_row_ge: "n \<le> padded_row n"
  by (simp add: padded_row_def)

lemma new_BMPEncoder_whole:
  assumes "bpp = 1 \<or> bpp = 24" and "of_nat w * (of_int bpp / 8) = (of_nat n :: rat)"
  shows "new_BMPEncoder w h bpp =
           Inr \<lparr> width = w, height = h, bitsPerPixel = bpp,
                 padding = of_nat ((4 - n mod 4) mod 4),
                 paddedWidthBytes = of_nat (padded_row n) \<rparr>"
proof -
  have "(4 :: rat) - of_nat (n mod 4) = of_nat (4 - n mod 4)"
    by simp
  then have pad: "js_rem (4 - js_rem (of_nat n) 4) 4 = of_nat ((4 - n mod 4) mod 4)"
    by (simp only: js_rem_of_nat)
  have "\<lceil>(of_nat n :: rat)\<rceil> = int n"
    by simp
  then show ?thesis
    using assms(1) unfolding new_BMPEncoder_def Let_def assms(2) pad
    by (auto simp: SUPPORTED_BITS_PER_PIXEL_def padded_row_def)
qed

lemma new_BMPEncoder_rgb:
  "new_BMPEncoder w h 24 =
     Inr \<lparr> width = w, height = h, bitsPerPixel = 24,
           padding = of_nat ((4 - (3 * w) mod 4) mod 4),
           paddedWidthBytes = of_nat (padded_row (3 * w)) \<rparr>"
  by (rule new_BMPEncoder_whole) simp_all

lemma new_BMPEncoder_mono:
  assumes "8 dvd w"
  shows "new_BMPEncoder w h 1 =
     Inr \<lparr> width = w, height = h, bitsPerPixel = 1,
           padding = of_nat ((4 - (w div 8) mod 4) mod 4),
           paddedWidthBytes = of_nat (padded_row (w div 8)) \<rparr>"
proof (rule new_BMPEncoder_whole)
  from assms obtain k where "w = 8 * k" ..
  then show "of_nat w * (of_int 1 / 8) = (of_nat (w div 8) :: rat)"
    by simp
qed simp

text \<open>
  C7. Unsupported depth: for every \<open>bitsPerPixel\<close> other than 1 and 24 the constructor
  fails with \<open>UnsupportedDepth\<close>, whatever the width and height, and so does
  \<open>new BMPEncoder(w, h, bpp).encode(data)\<close> whatever the data (they are not looked at);
  for 1 and 24 the constructor returns an encoder with the given width, height and depth.
\<close>

theorem C7_unsupported_depth:
  "(bpp \<noteq> 1 \<and> bpp \<noteq> 24 \<longrightarrow>
      new_BMPEncoder w h bpp = Inl UnsupportedDepth \<and> bmp_encode w h bpp data = Inl UnsupportedDepth)
   \<and> (bpp = 1 \<or> bpp = 24 \<longrightarrow>
      (\<exists>this. new_BMPEncoder w h bpp = Inr this
         \<and> width this = w \<and> height this = h \<and> bitsPerPixel this = bpp))"
  by (auto simp: new_BMPEncoder_def bmp_encode_def SUPPORTED_BITS_PER_PIXEL_def Let_def)

theorem C7_unsupported_depth_witness:
  "new_BMPEncoder 800 480 4 = Inl UnsupportedDepth
   \<and> bmp_encode 800 480 4 [] = Inl UnsupportedDepth
   \<and> (\<exists>this. new_BMPEncoder 800 480 1 = Inr this
         \<and> width this = 800 \<and> height this = 480 \<and> bitsPerPixel this = 1)"
  using C7_unsupported_depth [of 4 800 480 "[]"] C7_unsupported_depth [of 1 800 480 "[]"]
  by simp

section \<open>The header\<close>


lemma new_BMPEncoder_fields:
  assumes "new_BMPEncoder w h bpp = Inr this"
  shows "width this = w" and "height this = h" and "bitsPerPixel this = bpp"
    and "bpp = 1 \<or> bpp = 24"
    and "of_nat w * (of_int bpp / 8) \<le> paddedWidthBytes this"
    and "0 \<le> paddedWidthBytes this" and "0 \<le> padding this"
    and "paddedWidthBytes this = of_int \<lceil>of_nat w * (of_int bpp / 8 :: rat)\<rceil> + padding this"
proof -
  define rowBytes :: rat where "rowBytes = of_nat w * (of_int bpp / 8)"
  define pad where "pad = js_rem (4 - js_rem rowBytes 4) 4"
  from assms have bpp: "bpp = 1 \<or> bpp = 24"
    by (auto simp: new_BMPEncoder_def SUPPORTED_BITS_PER_PIXEL_def split: if_splits)
  with assms have rec: "this = \<lparr> width = w, height = h, bitsPerPixel = bpp, padding = pad,
      paddedWidthBytes = of_int \<lceil>rowBytes\<rceil> + pad \<rparr>"
    by (auto simp: new_BMPEncoder_def SUPPORTED_BITS_PER_PIXEL_def Let_def rowBytes_def pad_def)
  from bpp have rb: "0 \<le> rowBytes"
    by (auto simp: rowBytes_def)
  then have "js_rem rowBytes 4 < 4"
    by (intro js_rem_bounds) simp_all
  then have pad: "0 \<le> pad"
    unfolding pad_def by (intro js_rem_bounds) simp_all
  have ce: "rowBytes \<le> of_int \<lceil>rowBytes\<rceil>"
    by (rule le_of_int_ceiling)
  have P: "paddedWidthBytes this = of_int \<lceil>rowBytes\<rceil> + pad" and Q: "padding this = pad"
    by (simp_all add: rec)
  show "width this = w" "height this = h" "bitsPerPixel this = bpp" "bpp = 1 \<or> bpp = 24"
    using bpp by (simp_all add: rec)
  show "of_nat w * (of_int bpp / 8) \<le> paddedWidthBytes this"
    unfolding rowBytes_def [symmetric] P using pad ce by linarith
  show "0 \<le> paddedWidthBytes this"
    unfolding P using pad ce rb by linarith
  show "0 \<le> padding this"
    unfolding Q by (rule pad)
  show "paddedWidthBytes this = of_int \<lceil>of_nat w * (of_int bpp / 8 :: rat)\<rceil> + padding this"
    unfolding rowBytes_def [symmetric] P Q ..
qed


section \<open>Loops\<close>

lemma for_each_invariant:
  assumes "I 0 s"
    and "\<And>k s. k < length xs \<Longrightarrow> I k s \<Longrightarrow> \<exists>s'. body (xs ! k) s = Inr s' \<and> I (Suc k) s'"
  shows "\<exists>s'. for_each xs body s = Inr s' \<and> I (length xs) s'"
  using assms
proof (induction xs arbitrary: I s)
  case Nil
  then show ?case by simp
next
  case (Cons x xs)
  from Cons.prems(2) [of 0 s] Cons.prems(1)
  obtain s1 where s1: "body x s = Inr s1" "I (Suc 0) s1"
    by auto
  have "\<exists>s'. for_each xs body s1 = Inr s' \<and> I (Suc (length xs)) s'"
  proof (rule Cons.IH [where I = "\<lambda>k. I (Suc k)"])
    show "I (Suc 0) s1" by (rule s1)
  next
    fix k t
    assume "k < length xs" and "I (Suc k) t"
    with Cons.prems(2) [of "Suc k" t]
    show "\<exists>s'. body (xs ! k) t = Inr s' \<and> I (Suc (Suc k)) s'"
      by simp
  qed
  with s1 show ?case by simp
qed

lemma for_each_upt:
  assumes "I 0 s"
    and "\<And>k s. k < n \<Longrightarrow> I k s \<Longrightarrow> \<exists>s'. body k s = Inr s' \<and> I (Suc k) s'"
  shows "\<exists>s'. for_each [0..<n] body s = Inr s' \<and> I n s'"
  using for_each_invariant [of I s "[0..<n]" body] assms by simp

lemma for_each_cong:
  assumes "\<And>i s. i \<in> set xs \<Longrightarrow> f i s = g i s"
  shows "for_each xs f s = for_each xs g s"
  using assms
proof (induction xs arbitrary: s)
  case Nil
  show ?case by simp
next
  case (Cons x xs)
  have "for_each xs f = for_each xs g"
    using Cons by (intro ext) simp
  with Cons.prems [of x s] show ?case by simp
qed

lemma is_index_of_nat: "is_index buf (of_nat k) = (k < length buf)"
  by (simp add: is_index_def)

lemma readUInt8_of_nat: "k < length buf \<Longrightarrow> readUInt8 buf (of_nat k) = Inr (buf ! k)"
  by (simp add: readUInt8_def is_index_of_nat)

lemma writeUInt8_of_nat: "k < length buf \<Longrightarrow> writeUInt8 v (of_nat k) buf = Inr (buf[k := v])"
  by (simp add: writeUInt8_def is_index_of_nat)

lemma row_index_less:
  assumes "y < h" and "a < (P :: nat)"
  shows "(h - 1 - y) * P + a < h * P"
proof -
  have "(h - 1 - y) + 1 \<le> h"
    using assms(1) by simp
  then have "((h - 1 - y) + 1) * P \<le> h * P"
    by (rule mult_le_mono1)
  then show ?thesis
    using assms(2) by (simp add: add_mult_distrib)
qed

lemma row_index_unique:
  assumes "r * P + a = r' * P + a'" and "a < P" and "a' < (P :: nat)"
  shows "r = r' \<and> a = a'"
proof -
  have "(r * P + a) div P = r" "(r' * P + a') div P = r'"
    using assms(2,3) by simp_all
  with assms(1) have "r = r'" by simp
  with assms(1) show ?thesis by simp
qed

lemma bit_set_byte:
  "bit (b OR push_bit k 1 :: byte) n \<longleftrightarrow> bit b n \<or> (n = k \<and> k < 8)"
  by (auto simp: bit_simps)

lemma bit_clear_byte:
  "bit (b AND NOT (push_bit k 1) :: byte) n \<longleftrightarrow> bit b n \<and> n \<noteq> k"
  by (auto simp: bit_simps dest: bit_imp_le_length)

section \<open>The pixel data\<close>

lemma write_padding_whole:
  assumes "padding this = of_nat pad" and "offset + pad \<le> length pd"
  shows "\<exists>pd'. write_padding this (pd, offset) = Inr (pd', offset + pad)
           \<and> length pd' = length pd
           \<and> (\<forall>i. i < offset \<or> offset + pad \<le> i \<longrightarrow> pd' ! i = pd ! i)"
proof -
  define I where "I k s \<longleftrightarrow> snd s = offset + k \<and> length (fst s) = length pd
      \<and> (\<forall>i. i < offset \<or> offset + pad \<le> i \<longrightarrow> fst s ! i = pd ! i)"
    for k and s :: "buffer \<times> nat"
  define body where "body = (\<lambda>(p :: nat) (pixelData, offset).
      then_do (writeUInt8 0 (of_nat offset) pixelData) (\<lambda>pixelData. Inr (pixelData, offset + 1)))"
  have "\<exists>s'. for_each [0..<pad] body (pd, offset) = Inr s' \<and> I pad s'"
  proof (rule for_each_upt)
    show "I 0 (pd, offset)"
      by (simp add: I_def)
  next
    fix k and s :: "buffer \<times> nat"
    assume k: "k < pad" and inv: "I k s"
    obtain q off where s: "s = (q, off)"
      by (cases s)
    from inv k assms(2) have lt: "off < length q" and off: "off = offset + k"
      by (simp_all add: I_def s)
    from lt have "body k s = Inr (q[off := 0], off + 1)"
      by (simp add: body_def s writeUInt8_of_nat)
    moreover have "I (Suc k) (q[off := 0], off + 1)"
      using inv k by (auto simp: I_def s off)
    ultimately show "\<exists>s'. body k s = Inr s' \<and> I (Suc k) s'"
      by blast
  qed
  moreover have "nat \<lceil>padding this\<rceil> = pad"
    by (simp add: assms(1))
  ultimately show ?thesis
    unfolding write_padding_def body_def [symmetric] by (auto simp: I_def)
qed

lemma mono_pixel_whole:
  assumes "width this = w" and "height this = h" and "paddedWidthBytes this = of_nat P"
    and "y < h" and "x div 8 < P" and "length pd = h * P"
  shows "mono_pixel this data y x pd =
     Inr (pd[(h - 1 - y) * P + x div 8 :=
            (if js_index data (y * w + x) = Some 255
             then pd ! ((h - 1 - y) * P + x div 8) OR push_bit (7 - x mod 8) 1
             else pd ! ((h - 1 - y) * P + x div 8) AND NOT (push_bit (7 - x mod 8) 1))])"
proof -
  define j where "j = (h - 1 - y) * P + x div 8"
  have idx: "of_nat (height this - 1 - y) * paddedWidthBytes this + of_nat (x div 8)
      = (of_nat j :: rat)"
    by (simp add: assms(2,3) j_def)
  have "j < length pd"
    unfolding assms(6) j_def using assms(4,5) by (rule row_index_less)
  then have r: "readUInt8 pd (of_nat j) = Inr (pd ! j)"
    and w: "writeUInt8 v (of_nat j) pd = Inr (pd[j := v])" for v
    by (simp_all only: readUInt8_of_nat writeUInt8_of_nat)
  show ?thesis
    unfolding mono_pixel_def Let_def idx assms(1) r then_do_Inr w j_def [symmetric]
    by simp
qed

lemma bit_set_byte_pow:
  "bit (b OR 2 ^ k :: byte) n \<longleftrightarrow> bit b n \<or> (n = k \<and> k < 8)"
  using bit_set_byte [of b k n] by simp

lemma bit_clear_byte_pow:
  "bit (b AND NOT (2 ^ k) :: byte) n \<longleftrightarrow> bit b n \<and> n \<noteq> k"
  using bit_clear_byte [of b k n] by simp

lemma pixel_byte_not_padding:
  assumes "a < c" and "P = c + (pad :: nat)"
  shows "r * P + a < y * P + c \<or> y * P + c + pad \<le> r * P + a"
proof -
  consider "r < y" | "r = y" | "y < r"
    by linarith
  then show ?thesis
  proof cases
    case 1
    then have "Suc r * P \<le> y * P"
      by (intro mult_le_mono1) simp
    with assms show ?thesis
      by simp
  next
    case 2
    with assms show ?thesis
      by simp
  next
    case 3
    then have "Suc y * P \<le> r * P"
      by (intro mult_le_mono1) simp
    with assms show ?thesis
      by simp
  qed
qed

text \<open>
  What the 1-bit branch establishes for the pixel at column \<open>x\<close> of input row \<open>y\<close>: its
  bit, counted from the most significant one, in byte \<open>x div 8\<close> of output row
  \<open>h - 1 - y\<close> is set exactly when the sample is 255.
\<close>

lemma mono_pixel_loop:
  fixes P h w :: nat and data :: buffer
  defines "packed q y x \<equiv>
      bit (q ! ((h - 1 - y) * P + x div 8) :: byte) (7 - x mod 8) \<longleftrightarrow> js_index data (y * w + x) = Some 255"
  assumes "width this = w" and "height this = h" and "paddedWidthBytes this = of_nat P"
    and "w = 8 * c" and "c \<le> P" and "y < h" and "length pd = h * P"
    and "\<forall>y'<y. \<forall>x<w. packed pd y' x"
  shows "\<exists>pd'. for_each [0..<w] (mono_pixel this data y) pd = Inr pd'
           \<and> length pd' = h * P \<and> (\<forall>y'<Suc y. \<forall>x<w. packed pd' y' x)"
proof -
  define J where "J k q \<longleftrightarrow> length q = h * P \<and> (\<forall>y'<y. \<forall>x<w. packed q y' x) \<and> (\<forall>x<k. packed q y x)"
    for k q
  have "\<exists>pd'. for_each [0..<w] (mono_pixel this data y) pd = Inr pd' \<and> J w pd'"
  proof (rule for_each_upt)
    show "J 0 pd"
      using assms(8,9) by (simp add: J_def)
  next
    fix k q
    assume k: "k < w" and inv: "J k q"
    then have len: "length q = h * P"
      by (simp add: J_def)
    have col: "x div 8 < P" if "x < w" for x
    proof -
      from that assms(5) have "x div 8 < c" by simp
      with assms(6) show ?thesis by simp
    qed
    define j where "j = (h - 1 - y) * P + k div 8"
    define nb where "nb = (if js_index data (y * w + k) = Some 255
        then q ! j OR push_bit (7 - k mod 8) 1 else q ! j AND NOT (push_bit (7 - k mod 8) 1))"
    have step: "mono_pixel this data y k q = Inr (q[j := nb])"
      unfolding j_def nb_def
      by (rule mono_pixel_whole [OF assms(2,3,4) assms(7) col [OF k] len])
    have jlt: "j < length q"
      unfolding len j_def using assms(7) col [OF k] by (rule row_index_less)
    have other: "packed (q[j := nb]) y' x" if "packed q y' x" and "y' < y" and "x < w" for y' x
    proof -
      have "(h - 1 - y') * P + x div 8 \<noteq> j"
      proof
        assume "(h - 1 - y') * P + x div 8 = j"
        then have "h - 1 - y' = h - 1 - y"
          unfolding j_def using row_index_unique [OF _ col [OF that(3)] col [OF k]] by blast
        with that(2) assms(7) show False
          by simp
      qed
      with that(1) show ?thesis
        by (simp add: packed_def)
    qed
    have same: "packed (q[j := nb]) y x" if "packed q y x" and "x < k" for x
    proof (cases "x div 8 = k div 8")
      case False
      then have "(h - 1 - y) * P + x div 8 \<noteq> j"
        by (simp add: j_def)
      with that(1) show ?thesis
        by (simp add: packed_def)
    next
      case True
      have "x mod 8 \<noteq> k mod 8"
      proof
        assume "x mod 8 = k mod 8"
        with True have "x = k"
          by (metis div_mult_mod_eq)
        with that(2) show False by simp
      qed
      moreover have "x mod 8 < 8" "k mod 8 < 8"
        by simp_all
      ultimately have ne: "7 - x mod 8 \<noteq> 7 - k mod 8"
        by linarith
      have "bit nb (7 - x mod 8) = bit (q ! j) (7 - x mod 8)"
        using ne by (simp add: nb_def bit_set_byte_pow bit_clear_byte_pow)
      with that(1) jlt show ?thesis
        by (simp add: packed_def True j_def)
    qed
    have new: "packed (q[j := nb]) y k"
    proof -
      have "7 - k mod 8 < 8"
        by simp
      then have "bit nb (7 - k mod 8) \<longleftrightarrow> js_index data (y * w + k) = Some 255"
        by (simp add: nb_def bit_set_byte_pow bit_clear_byte_pow)
      with jlt show ?thesis
        by (simp add: packed_def j_def)
    qed
    have "J (Suc k) (q[j := nb])"
      unfolding J_def
    proof (intro conjI allI impI)
      show "length (q[j := nb]) = h * P"
        by (simp add: len)
    next
      fix y' x assume "y' < y" "x < w"
      with inv other show "packed (q[j := nb]) y' x"
        by (simp add: J_def)
    next
      fix x assume "x < Suc k"
      then consider "x < k" | "x = k"
        by linarith
      then show "packed (q[j := nb]) y x"
      proof cases
        case 1
        with inv same show ?thesis by (simp add: J_def)
      next
        case 2
        with new show ?thesis by simp
      qed
    qed
    with step show "\<exists>s'. mono_pixel this data y k q = Inr s' \<and> J (Suc k) s'"
      by blast
  qed
  then obtain pd' where r: "for_each [0..<w] (mono_pixel this data y) pd = Inr pd'" and j: "J w pd'"
    by blast
  have "\<forall>y'<Suc y. \<forall>x<w. packed pd' y' x"
  proof (intro allI impI)
    fix y' x assume "y' < Suc y" "x < w"
    then consider "y' < y" | "y' = y"
      by linarith
    then show "packed pd' y' x"
      using j \<open>x < w\<close> by cases (simp_all add: J_def)
  qed
  with r j show ?thesis
    by (auto simp: J_def)
qed

lemma mono_row_whole:
  fixes P h w :: nat and data :: buffer
  defines "packed q y x \<equiv>
      bit (q ! ((h - 1 - y) * P + x div 8) :: byte) (7 - x mod 8) \<longleftrightarrow> js_index data (y * w + x) = Some 255"
  assumes "width this = w" and "height this = h" and "paddedWidthBytes this = of_nat P"
    and "padding this = of_nat pad" and "w = 8 * c" and "P = c + pad"
    and "y < h" and "length pd = h * P"
    and "\<forall>y'<y. \<forall>x<w. packed pd y' x"
  shows "\<exists>pd'. mono_row this data y (pd, y * P) = Inr (pd', Suc y * P)
           \<and> length pd' = h * P \<and> (\<forall>y'<Suc y. \<forall>x<w. packed pd' y' x)"
proof -
  have cP: "c \<le> P"
    by (simp add: assms(7))
  from mono_pixel_loop [OF assms(2,3,4,6) cP assms(8,9) assms(10) [unfolded packed_def]]
  obtain q where loop: "for_each [0..<w] (mono_pixel this data y) pd = Inr q"
    and lenq: "length q = h * P" and pq: "\<forall>y'<Suc y. \<forall>x<w. packed q y' x"
    unfolding packed_def by blast
  have "of_nat (width this) / (8 :: rat) = of_nat c"
    by (simp add: assms(2,6))
  then have ceil: "nat \<lceil>of_nat (width this) / (8 :: rat)\<rceil> = c"
    by simp
  have "Suc y * P \<le> h * P"
    using assms(8) by (intro mult_le_mono1) simp
  then have fits: "(y * P + c) + pad \<le> length q"
    by (simp add: lenq assms(7))
  from write_padding_whole [OF assms(5) fits]
  obtain pd' where wp: "write_padding this (q, y * P + c) = Inr (pd', y * P + c + pad)"
    and len': "length pd' = length q"
    and keep: "\<And>i. i < y * P + c \<or> y * P + c + pad \<le> i \<Longrightarrow> pd' ! i = q ! i"
    by blast
  have "mono_row this data y (pd, y * P) =
      then_do (for_each [0..<w] (mono_pixel this data y) pd)
        (\<lambda>pixelData. write_padding this (pixelData, y * P + c))"
    unfolding mono_row_def ceil by (simp add: assms(2))
  then have "mono_row this data y (pd, y * P) = Inr (pd', y * P + c + pad)"
    by (simp add: loop wp)
  then have res: "mono_row this data y (pd, y * P) = Inr (pd', Suc y * P)"
    by (simp add: assms(7))
  have "packed pd' y' x" if "y' < Suc y" and "x < w" for y' x
  proof -
    from that(2) have "x div 8 < c"
      by (simp add: assms(6))
    then have "pd' ! ((h - 1 - y') * P + x div 8) = q ! ((h - 1 - y') * P + x div 8)"
      by (intro keep pixel_byte_not_padding assms(7))
    moreover from pq that have "packed q y' x"
      by blast
    ultimately show ?thesis
      by (simp add: packed_def)
  qed
  with res len' lenq show ?thesis
    by auto
qed

lemma createPixelData_mono:
  fixes P h w :: nat and data :: buffer
  assumes "width this = w" and "height this = h" and "paddedWidthBytes this = of_nat P"
    and "padding this = of_nat pad" and "bitsPerPixel this = 1" and "w = 8 * c" and "P = c + pad"
  shows "\<exists>pd. createPixelData this data = Inr pd \<and> length pd = h * P
           \<and> (\<forall>y<h. \<forall>x<w. bit (pd ! ((h - 1 - y) * P + x div 8)) (7 - x mod 8)
                  \<longleftrightarrow> js_index data (y * w + x) = Some 255)"
proof -
  define packed where "packed q y x \<longleftrightarrow>
      (bit (q ! ((h - 1 - y) * P + x div 8) :: byte) (7 - x mod 8) \<longleftrightarrow> js_index data (y * w + x) = Some 255)"
    for q y x
  define I where "I k s \<longleftrightarrow> snd s = k * P \<and> length (fst s) = h * P \<and> (\<forall>y<k. \<forall>x<w. packed (fst s) y x)"
    for k and s :: "buffer \<times> nat"
  have "of_nat (height this) * paddedWidthBytes this = (of_nat (h * P) :: rat)"
    by (simp add: assms(2,3))
  then have al: "alloc (of_nat (height this) * paddedWidthBytes this) = replicate (h * P) 0"
    unfolding alloc_def by (simp del: of_nat_mult)
  have "\<exists>s'. for_each [0..<h] (mono_row this data) (replicate (h * P) 0, 0) = Inr s' \<and> I h s'"
  proof (rule for_each_upt)
    show "I 0 (replicate (h * P) 0, 0)"
      by (simp add: I_def)
  next
    fix k and s :: "buffer \<times> nat"
    assume k: "k < h" and inv: "I k s"
    obtain q off where s: "s = (q, off)"
      by (cases s)
    from inv have off: "off = k * P" and len: "length q = h * P"
      and pk: "\<forall>y'<k. \<forall>x<w. packed q y' x"
      by (simp_all add: I_def s)
    from mono_row_whole [OF assms(1,2,3,4,6,7) k len pk [unfolded packed_def]]
    obtain pd' where "mono_row this data k (q, k * P) = Inr (pd', Suc k * P)"
      and "length pd' = h * P" and "\<forall>y'<Suc k. \<forall>x<w. packed pd' y' x"
      unfolding packed_def by blast
    then show "\<exists>s'. mono_row this data k s = Inr s' \<and> I (Suc k) s'"
      by (simp add: I_def s off)
  qed
  then obtain pd off where "for_each [0..<h] (mono_row this data) (replicate (h * P) 0, 0) = Inr (pd, off)"
    and "I h (pd, off)"
    by (metis surj_pair)
  then have "createPixelData this data = Inr pd" and "length pd = h * P"
    and "\<forall>y<h. \<forall>x<w. packed pd y x"
    unfolding createPixelData_def Let_def al by (simp_all add: assms(5) assms(2) I_def)
  then show ?thesis
    unfolding packed_def by blast
qed

section \<open>Rows that are not a whole number of bytes\<close>

lemma for_each_Inr_invariant:
  assumes "for_each xs body s = Inr s'" and "I 0 s"
    and "\<And>k t t'. k < length xs \<Longrightarrow> I k t \<Longrightarrow> body (xs ! k) t = Inr t' \<Longrightarrow> I (Suc k) t'"
  shows "I (length xs) s'"
  using assms
proof (induction xs arbitrary: I s)
  case Nil
  then show ?case by simp
next
  case (Cons x xs)
  from Cons.prems(1) obtain s1 where s1: "body x s = Inr s1" and rest: "for_each xs body s1 = Inr s'"
    by (auto simp: then_do_eq_Inr)
  from Cons.prems(3) [of 0 s s1] Cons.prems(2) s1 have "I (Suc 0) s1"
    by simp
  with rest have "I (Suc (length xs)) s'"
  proof (rule Cons.IH [where I = "\<lambda>k. I (Suc k)"])
    fix k t t'
    assume "k < length xs" and "I (Suc k) t" and "body (xs ! k) t = Inr t'"
    with Cons.prems(3) [of "Suc k" t t'] show "I (Suc (Suc k)) t'"
      by simp
  qed
  then show ?case by simp
qed

lemma writeUInt8_Inr:
  assumes "writeUInt8 v r buf = Inr buf'"
  shows "is_index buf r" and "length buf' = length buf"
  using assms by (auto simp: writeUInt8_def split: if_splits)

lemma mono_pixel_length:
  assumes "mono_pixel this data y x pd = Inr pd'"
  shows "length pd' = length pd"
  using assms
  by (auto simp: mono_pixel_def Let_def then_do_eq_Inr split: if_splits dest: writeUInt8_Inr(2))

lemma write_padding_Inr:
  assumes "write_padding this (pd, offset) = Inr (pd', offset')"
  shows "length pd' = length pd"
    and "offset' = offset + nat \<lceil>padding this\<rceil>"
    and "0 < nat \<lceil>padding this\<rceil> \<Longrightarrow> offset' \<le> length pd"
proof -
  define n where "n = nat \<lceil>padding this\<rceil>"
  define I where "I k s \<longleftrightarrow> length (fst s) = length pd \<and> snd s = offset + k \<and> (0 < k \<longrightarrow> snd s \<le> length pd)"
    for k and s :: "buffer \<times> nat"
  define body where "body = (\<lambda>(p :: nat) (pixelData, offset).
      then_do (writeUInt8 0 (of_nat offset) pixelData) (\<lambda>pixelData. Inr (pixelData, offset + 1)))"
  from assms have run: "for_each [0..<n] body (pd, offset) = Inr (pd', offset')"
    by (simp add: write_padding_def body_def n_def)
  have "I (length [0..<n]) (pd', offset')"
    using run
  proof (rule for_each_Inr_invariant)
    show "I 0 (pd, offset)"
      by (simp add: I_def)
  next
    fix k and t t' :: "buffer \<times> nat"
    assume inv: "I k t" and step: "body ([0..<n] ! k) t = Inr t'"
    obtain q off where t: "t = (q, off)"
      by (cases t)
    from step obtain q' where w: "writeUInt8 0 (of_nat off) q = Inr q'" and t': "t' = (q', off + 1)"
      by (auto simp: body_def t then_do_eq_Inr)
    from writeUInt8_Inr [OF w] have "off < length q" and "length q' = length q"
      by (simp_all add: is_index_of_nat)
    with inv show "I (Suc k) t'"
      by (simp add: I_def t t')
  qed
  then show "length pd' = length pd" and "offset' = offset + nat \<lceil>padding this\<rceil>"
    and "0 < nat \<lceil>padding this\<rceil> \<Longrightarrow> offset' \<le> length pd"
    by (simp_all add: I_def n_def)
qed

lemma mono_row_Inr:
  assumes "mono_row this data y (pd, offset) = Inr (pd', offset')"
  shows "length pd' = length pd"
    and "offset' = offset + nat \<lceil>of_nat (width this) / (8 :: rat)\<rceil> + nat \<lceil>padding this\<rceil>"
    and "0 < nat \<lceil>padding this\<rceil> \<Longrightarrow> offset' \<le> length pd"
proof -
  from assms obtain q where
    loop: "for_each [0..<width this] (mono_pixel this data y) pd = Inr q"
    and wp: "write_padding this (q, offset + nat \<lceil>of_nat (width this) / (8 :: rat)\<rceil>) = Inr (pd', offset')"
    by (auto simp: mono_row_def then_do_eq_Inr)
  have "length q = length pd"
    using loop
  proof (rule for_each_Inr_invariant [where I = "\<lambda>k q. length q = length pd"])
    fix k t t'
    assume "length t = length pd" and "mono_pixel this data y ([0..<width this] ! k) t = Inr t'"
    then show "length t' = length pd"
      by (simp add: mono_pixel_length)
  qed simp
  with write_padding_Inr [OF wp]
  show "length pd' = length pd"
    and "offset' = offset + nat \<lceil>of_nat (width this) / (8 :: rat)\<rceil> + nat \<lceil>padding this\<rceil>"
    and "0 < nat \<lceil>padding this\<rceil> \<Longrightarrow> offset' \<le> length pd"
    by simp_all
qed

lemma new_BMPEncoder_padding:
  assumes "new_BMPEncoder w h bpp = Inr this"
  shows "padding this = js_rem (4 - js_rem (of_nat w * (of_int bpp / 8)) 4) 4"
  using assms by (auto simp: new_BMPEncoder_def Let_def split: if_splits)

lemma js_rem_Ints:
  assumes "js_rem a 4 \<in> \<int>"
  shows "a \<in> \<int>"
proof -
  have "a = js_rem a 4 + 4 * of_int (js_trunc (a / 4))"
    by (simp add: js_rem_def)
  moreover have "js_rem a 4 + 4 * of_int (js_trunc (a / 4)) \<in> \<int>"
    using assms by (intro Ints_add Ints_mult Ints_of_int) simp_all
  ultimately show ?thesis
    by simp
qed

lemma eighth_Ints:
  assumes "(of_nat w / 8 :: rat) \<in> \<int>"
  shows "8 dvd w"
proof -
  from assms obtain z where z: "(of_nat w / 8 :: rat) = of_int z"
    by (auto elim: Ints_cases)
  then have "(of_nat w :: rat) = of_int (8 * z)"
    by simp
  then have "int w = 8 * z"
    by (metis of_int_eq_iff of_int_of_nat_eq)
  then have "8 dvd int w"
    by simp
  then show ?thesis
    by presburger
qed

lemma fractional_padding:
  assumes "new_BMPEncoder w h 1 = Inr this" and "\<not> 8 dvd w"
  shows "padding this < of_nat (nat \<lceil>padding this\<rceil>)" and "0 < nat \<lceil>padding this\<rceil>"
proof -
  have not_int: "padding this \<notin> \<int>"
  proof
    assume "padding this \<in> \<int>"
    then have "4 - js_rem (of_nat w * (of_int 1 / 8)) 4 \<in> \<int>"
      unfolding new_BMPEncoder_padding [OF assms(1)] by (rule js_rem_Ints)
    then have "4 - (4 - js_rem (of_nat w * (of_int 1 / 8)) 4) \<in> \<int>"
      by (intro Ints_diff) simp_all
    then have "js_rem (of_nat w * (of_int 1 / 8)) 4 \<in> \<int>"
      by simp
    then have "(of_nat w * (of_int 1 / 8) :: rat) \<in> \<int>"
      by (rule js_rem_Ints)
    then have "8 dvd w"
      by (intro eighth_Ints) simp
    with assms(2) show False ..
  qed
  have nn: "0 \<le> padding this"
    by (rule new_BMPEncoder_fields(7) [OF assms(1)])
  moreover from not_int have "padding this \<noteq> 0"
    by auto
  ultimately have pos: "0 < padding this"
    by simp
  then show "0 < nat \<lceil>padding this\<rceil>"
    by simp
  from not_int have "of_int \<lceil>padding this\<rceil> \<noteq> padding this"
    by (metis Ints_of_int)
  with le_of_int_ceiling [of "padding this"] have "padding this < of_int \<lceil>padding this\<rceil>"
    by (simp only: less_le) simp
  moreover from pos have "(of_nat (nat \<lceil>padding this\<rceil>) :: rat) = of_int \<lceil>padding this\<rceil>"
    by simp
  ultimately show "padding this < of_nat (nat \<lceil>padding this\<rceil>)"
    by simp
qed

lemma createPixelData_mono_Inr:
  assumes "new_BMPEncoder w h 1 = Inr this" and "createPixelData this data = Inr pd" and "0 < h"
  shows "8 dvd w"
proof (rule ccontr)
  assume frac: "\<not> 8 dvd w"
  note f = new_BMPEncoder_fields [OF assms(1)]
  define n where "n = nat \<lceil>padding this\<rceil>"
  define c where "c = nat \<lceil>of_nat (width this) / (8 :: rat)\<rceil>"
  define L where "L = nat \<lfloor>of_nat h * paddedWidthBytes this\<rfloor>"
  from fractional_padding [OF assms(1) frac] have lt: "padding this < of_nat n" and n: "0 < n"
    by (simp_all add: n_def)
  have "(0 :: rat) \<le> of_nat w / 8"
    by simp
  then have "(of_nat c :: rat) = of_int \<lceil>of_nat w * (of_int 1 / 8 :: rat)\<rceil>"
    by (simp add: c_def f(1))
  with f(8) have P: "paddedWidthBytes this = of_nat c + padding this"
    by simp
  define I where "I k s \<longleftrightarrow> length (fst s) = L \<and> snd s = k * (c + n) \<and> (0 < k \<longrightarrow> snd s \<le> L)"
    for k and s :: "buffer \<times> nat"
  from assms(2) obtain s' where
    run: "for_each [0..<h] (mono_row this data) (alloc (of_nat h * paddedWidthBytes this), 0) = Inr s'"
    by (auto simp: createPixelData_def Let_def f(2,3) then_do_eq_Inr)
  have "I (length [0..<h]) s'"
    using run
  proof (rule for_each_Inr_invariant)
    show "I 0 (alloc (of_nat h * paddedWidthBytes this), 0)"
      by (simp add: I_def alloc_def L_def)
  next
    fix k and t t' :: "buffer \<times> nat"
    assume inv: "I k t" and step: "mono_row this data ([0..<h] ! k) t = Inr t'"
    obtain q off where t: "t = (q, off)"
      by (cases t)
    obtain q' off' where t': "t' = (q', off')"
      by (cases t')
    from mono_row_Inr [OF step [unfolded t t']] n
    have "length q' = length q" and "off' = off + c + n" and "off' \<le> length q"
      by (simp_all add: c_def n_def)
    with inv show "I (Suc k) t'"
      by (simp add: I_def t t')
  qed
  with assms(3) have "h * (c + n) \<le> L"
    by (simp add: I_def)
  then have "(of_nat (h * (c + n)) :: rat) \<le> of_nat L"
    by (simp only: of_nat_le_iff)
  moreover have "0 \<le> of_nat h * paddedWidthBytes this"
    using f(6) by simp
  then have "(of_nat L :: rat) \<le> of_nat h * paddedWidthBytes this"
    by (simp add: L_def)
  moreover have "of_nat h * paddedWidthBytes this < (of_nat h * (of_nat c + of_nat n) :: rat)"
    unfolding P using lt assms(3) by simp
  ultimately show False
    by simp
qed

section \<open>The 24-bit branch\<close>

lemma rgb_pixel_whole:
  assumes "off + 3 \<le> length pd"
  shows "\<exists>pd'. rgb_pixel this data y x (pd, off) = Inr (pd', off + 3) \<and> length pd' = length pd"
proof -
  define b g r where "b = js_to_byte (js_index data ((y * width this + x) * 3 + 2))"
    and "g = js_to_byte (js_index data ((y * width this + x) * 3 + 1))"
    and "r = js_to_byte (js_index data ((y * width this + x) * 3))"
  define pd1 pd2 pd3 where "pd1 = pd[off := b]" and "pd2 = pd1[off + 1 := g]" and "pd3 = pd2[off + 2 := r]"
  have w1: "writeUInt8 b (of_nat off) pd = Inr pd1"
    unfolding pd1_def using assms by (intro writeUInt8_of_nat) simp
  have w2: "writeUInt8 g (of_nat (off + 1)) pd1 = Inr pd2"
    unfolding pd2_def using assms by (intro writeUInt8_of_nat) (simp add: pd1_def)
  have w3: "writeUInt8 r (of_nat (off + 2)) pd2 = Inr pd3"
    unfolding pd3_def using assms by (intro writeUInt8_of_nat) (simp add: pd1_def pd2_def)
  have "rgb_pixel this data y x (pd, off) = Inr (pd3, off + 3)"
    unfolding rgb_pixel_def Let_def prod.case b_def [symmetric] g_def [symmetric] r_def [symmetric]
      w1 then_do_Inr w2 w3 ..
  moreover have "length pd3 = length pd"
    by (simp add: pd1_def pd2_def pd3_def)
  ultimately show ?thesis
    by blast
qed

lemma rgb_row_whole:
  assumes "width this = w" and "padding this = of_nat pad" and "off + 3 * w + pad \<le> length pd"
  shows "\<exists>pd'. rgb_row this data y (pd, off) = Inr (pd', off + 3 * w + pad) \<and> length pd' = length pd"
proof -
  define J where "J k s \<longleftrightarrow> snd s = off + 3 * k \<and> length (fst s) = length pd"
    for k and s :: "buffer \<times> nat"
  have "\<exists>s'. for_each [0..<w] (rgb_pixel this data y) (pd, off) = Inr s' \<and> J w s'"
  proof (rule for_each_upt)
    show "J 0 (pd, off)"
      by (simp add: J_def)
  next
    fix k and s :: "buffer \<times> nat"
    assume k: "k < w" and inv: "J k s"
    obtain q o' where s: "s = (q, o')"
      by (cases s)
    from inv k assms(3) have "o' + 3 \<le> length q"
      by (simp add: J_def s)
    from rgb_pixel_whole [OF this, of this data y k] inv
    show "\<exists>s'. rgb_pixel this data y k s = Inr s' \<and> J (Suc k) s'"
      by (auto simp: J_def s)
  qed
  then obtain q where loop: "for_each [0..<w] (rgb_pixel this data y) (pd, off) = Inr (q, off + 3 * w)"
    and lenq: "length q = length pd"
    by (auto simp: J_def)
  from assms(3) lenq have "(off + 3 * w) + pad \<le> length q"
    by simp
  from write_padding_whole [OF assms(2) this]
  obtain pd' where "write_padding this (q, off + 3 * w) = Inr (pd', off + 3 * w + pad)"
    and "length pd' = length q"
    by blast
  with loop lenq show ?thesis
    by (simp add: rgb_row_def assms(1))
qed

lemma createPixelData_rgb:
  assumes "width this = w" and "height this = h" and "paddedWidthBytes this = of_nat P"
    and "padding this = of_nat pad" and "bitsPerPixel this = 24" and "P = 3 * w + pad"
  shows "\<exists>pd. createPixelData this data = Inr pd \<and> length pd = h * P"
proof -
  define I where "I k s \<longleftrightarrow> snd s = k * P \<and> length (fst s) = h * P"
    for k and s :: "buffer \<times> nat"
  have "of_nat (height this) * paddedWidthBytes this = (of_nat (h * P) :: rat)"
    by (simp add: assms(2,3))
  then have al: "alloc (of_nat (height this) * paddedWidthBytes this) = replicate (h * P) 0"
    unfolding alloc_def by (simp del: of_nat_mult)
  have "\<exists>s'. for_each (rev [0..<h]) (rgb_row this data) (replicate (h * P) 0, 0) = Inr s'
          \<and> I (length (rev [0..<h])) s'"
  proof (rule for_each_invariant)
    show "I 0 (replicate (h * P) 0, 0)"
      by (simp add: I_def)
  next
    fix k and s :: "buffer \<times> nat"
    assume k: "k < length (rev [0..<h])" and inv: "I k s"
    obtain q off where s: "s = (q, off)"
      by (cases s)
    from inv have off: "off = k * P" and len: "length q = h * P"
      by (simp_all add: I_def s)
    from k have "Suc k * P \<le> h * P"
      by (intro mult_le_mono1) simp
    then have "off + 3 * w + pad \<le> length q"
      by (simp add: off len assms(6))
    from rgb_row_whole [OF assms(1,4) this, of data "rev [0..<h] ! k"]
    show "\<exists>s'. rgb_row this data (rev [0..<h] ! k) s = Inr s' \<and> I (Suc k) s'"
      by (auto simp: I_def s off len assms(6))
  qed
  then obtain pd off where "for_each (rev [0..<h]) (rgb_row this data) (replicate (h * P) 0, 0) = Inr (pd, off)"
    and "length pd = h * P"
    by (auto simp: I_def)
  then show ?thesis
    unfolding createPixelData_def Let_def al by (simp add: assms(5) assms(2))
qed

section \<open>Samples past the end of the buffer\<close>

lemma js_index_zero_extended:
  "js_index (data @ replicate k 0) i = Some 255 \<longleftrightarrow> js_index data i = Some 255"
  "js_to_byte (js_index (data @ replicate k 0) i) = js_to_byte (js_index data i)"
  by (auto simp: js_index_def js_to_byte_def nth_append)

lemma mono_pixel_zero_extended:
  "mono_pixel this (data @ replicate k 0) y x = mono_pixel this data y x"
  by (intro ext) (simp add: mono_pixel_def Let_def js_index_zero_extended(1))

lemma rgb_pixel_zero_extended:
  "rgb_pixel this (data @ replicate k 0) y x = rgb_pixel this data y x"
  by (intro ext) (simp add: rgb_pixel_def Let_def js_index_zero_extended(2) split: prod.split)

lemma createPixelData_zero_extended:
  "createPixelData this (data @ replicate k 0) = createPixelData this data"
proof -
  have m: "mono_row this (data @ replicate k 0) = mono_row this data"
    unfolding mono_row_def mono_pixel_zero_extended ..
  have r: "rgb_row this (data @ replicate k 0) = rgb_row this data"
    unfolding rgb_row_def rgb_pixel_zero_extended ..
  show ?thesis
    unfolding createPixelData_def m r ..
qed

lemma bmp_encode_zero_extended:
  "bmp_encode w h bpp (data @ replicate k 0) = bmp_encode w h bpp data"
  unfolding bmp_encode_def encode_def createPixelData_zero_extended ..

section \<open>Encoding images whose rows are whole bytes\<close>

lemma createHeader_rgb_eq:
  assumes "bitsPerPixel this = 24"
    and "width this \<le> 2147483647" and "height this \<le> 2147483647"
    and "0 \<le> paddedWidthBytes this"
    and "54 + of_nat (height this) * paddedWidthBytes this \<le> 4294967295"
    and "of_nat (width this) * of_nat (height this) * 3 \<le> (4294967295 :: rat)"
  shows "createHeader this = Inr
     (patch (le_bytes 4 0) 50
     (patch (le_bytes 4 0) 46
     (patch (le_bytes 4 0) 42
     (patch (le_bytes 4 0) 38
     (patch (le_bytes 4 (nat \<lfloor>of_nat (width this) * of_nat (height this) * (3 :: rat)\<rfloor>)) 34
     (patch (le_bytes 4 0) 30
     (patch (le_bytes 2 24) 28
     (patch (le_bytes 2 1) 26
     (patch (le_bytes 4 (height this)) 22
     (patch (le_bytes 4 (width this)) 18
     (patch (le_bytes 4 40) 14
     (patch (le_bytes 4 54) 10
     (patch (le_bytes 4 0) 6
     (patch (le_bytes 4 (nat \<lfloor>54 + of_nat (height this) * paddedWidthBytes this\<rfloor>)) 2
     (patch [0x42, 0x4D] 0 (replicate 54 0))))))))))))))))"
proof -
  have fs: "0 \<le> 54 + of_nat (height this) * paddedWidthBytes this"
    using assms(4) by simp
  show ?thesis
    using assms fs
    by (simp add: createHeader_def Let_def alloc_def write_BM_def write_bytes_ok
        writeUInt32LE_ok writeInt32LE_ok writeInt32LE_0 writeUInt16LE_ok)
qed

lemma readUInt32LE_append:
  assumes "off + 4 \<le> length xs"
  shows "readUInt32LE (xs @ ys) off = readUInt32LE xs off"
  using assms by (simp add: readUInt32LE_def nth_append)

lemma rat_of_nat_le:
  assumes "(a :: nat) \<le> b"
  shows "(of_nat a :: rat) \<le> of_nat b"
  using assms by simp

lemma encode_rgb_whole:
  assumes "w \<le> 2147483647" and "h \<le> 2147483647"
    and "54 + h * padded_row (3 * w) \<le> 4294967295"
  shows "\<exists>out. bmp_encode w h 24 data = Inr out
           \<and> length out = 54 + h * padded_row (3 * w)
           \<and> readUInt32LE out 18 = w \<and> readUInt32LE out 22 = h"
proof -
  define P where "P = padded_row (3 * w)"
  define pad where "pad = (4 - (3 * w) mod 4) mod 4"
  define this where "this = \<lparr> width = w, height = h, bitsPerPixel = 24,
      padding = of_nat pad, paddedWidthBytes = of_nat P \<rparr>"
  have new: "new_BMPEncoder w h 24 = Inr this"
    unfolding this_def P_def pad_def by (rule new_BMPEncoder_rgb)
  have P: "P = 3 * w + pad"
    by (simp add: P_def pad_def padded_row_def)
  have "(of_nat (54 + h * P) :: rat) \<le> of_nat 4294967295"
    using assms(3) unfolding P_def by (rule rat_of_nat_le)
  then have fs: "54 + of_nat h * of_nat P \<le> (4294967295 :: rat)"
    by simp
  have "h * (3 * w) \<le> h * P"
    by (intro mult_le_mono2) (simp add: P)
  moreover from assms(3) have "54 + h * P \<le> 4294967295"
    by (simp only: P_def)
  ultimately have "h * (3 * w) \<le> 4294967295"
    by linarith
  moreover have "w * h * 3 = h * (3 * w)"
    by (simp add: ac_simps)
  ultimately have "w * h * 3 \<le> 4294967295"
    by (simp only:)
  then have "(of_nat (w * h * 3) :: rat) \<le> of_nat 4294967295"
    by (rule rat_of_nat_le)
  then have img: "of_nat w * of_nat h * 3 \<le> (4294967295 :: rat)"
    by simp
  define header where "header =
     patch (le_bytes 4 0) 50
     (patch (le_bytes 4 0) 46
     (patch (le_bytes 4 0) 42
     (patch (le_bytes 4 0) 38
     (patch (le_bytes 4 (nat \<lfloor>of_nat (width this) * of_nat (height this) * (3 :: rat)\<rfloor>)) 34
     (patch (le_bytes 4 0) 30
     (patch (le_bytes 2 24) 28
     (patch (le_bytes 2 1) 26
     (patch (le_bytes 4 (height this)) 22
     (patch (le_bytes 4 (width this)) 18
     (patch (le_bytes 4 40) 14
     (patch (le_bytes 4 54) 10
     (patch (le_bytes 4 0) 6
     (patch (le_bytes 4 (nat \<lfloor>54 + of_nat (height this) * paddedWidthBytes this\<rfloor>)) 2
     (patch [0x42, 0x4D] 0 (replicate 54 0)))))))))))))))"
  have ch: "createHeader this = Inr header"
    unfolding header_def
    using assms(1,2) fs img by (intro createHeader_rgb_eq) (simp_all add: this_def)
  have len: "length header = 54"
    by (simp add: header_def)
  have hw: "readUInt32LE header 18 = w"
    using assms(1)
    by (simp add: header_def readUInt32LE_patch_other readUInt32LE_patch_same this_def)
  have hh: "readUInt32LE header 22 = h"
    using assms(2)
    by (simp add: header_def readUInt32LE_patch_other readUInt32LE_patch_same this_def)
  from createPixelData_rgb [of this w h P pad data] P
  obtain pd where pd: "createPixelData this data = Inr pd" and lpd: "length pd = h * P"
    by (auto simp: this_def)
  have "bmp_encode w h 24 data = Inr (header @ pd)"
    by (simp add: bmp_encode_def new encode_def ch pd)
  moreover have "length (header @ pd) = 54 + h * P"
    by (simp add: len lpd)
  moreover have "readUInt32LE (header @ pd) 18 = w" "readUInt32LE (header @ pd) 22 = h"
    by (simp_all add: readUInt32LE_append len hw hh)
  ultimately show ?thesis
    unfolding P_def by blast
qed

lemma encode_mono_whole:
  assumes "8 dvd w" and "w \<le> 2147483647" and "h \<le> 2147483647"
    and "62 + h * padded_row (w div 8) \<le> 4294967295"
  shows "\<exists>out. bmp_encode w h 1 data = Inr out
           \<and> length out = 62 + h * padded_row (w div 8)
           \<and> readUInt32LE out 18 = w \<and> readUInt32LE out 22 = h"
proof -
  define c where "c = w div 8"
  define P where "P = padded_row c"
  define pad where "pad = (4 - c mod 4) mod 4"
  define this where "this = \<lparr> width = w, height = h, bitsPerPixel = 1,
      padding = of_nat pad, paddedWidthBytes = of_nat P \<rparr>"
  have new: "new_BMPEncoder w h 1 = Inr this"
    unfolding this_def P_def pad_def c_def using assms(1) by (rule new_BMPEncoder_mono)
  have P: "P = c + pad"
    by (simp add: P_def pad_def padded_row_def)
  have w: "w = 8 * c"
    using assms(1) by (simp add: c_def)
  have "(of_nat (62 + h * P) :: rat) \<le> of_nat 4294967295"
    using assms(4) unfolding P_def c_def by (rule rat_of_nat_le)
  then have fs: "62 + of_nat h * of_nat P \<le> (4294967295 :: rat)"
    by simp
  have "h * c \<le> h * P"
    by (intro mult_le_mono2) (simp add: P)
  moreover from assms(4) have "62 + h * P \<le> 4294967295"
    by (simp only: P_def c_def)
  ultimately have "h * c \<le> 4294967295"
    by linarith
  moreover have "c * h = h * c"
    by (simp add: ac_simps)
  ultimately have "c * h \<le> 4294967295"
    by (simp only:)
  then have "(of_nat (c * h) :: rat) \<le> of_nat 4294967295"
    by (rule rat_of_nat_le)
  then have img: "of_nat w * of_nat h / 8 \<le> (4294967295 :: rat)"
    by (simp add: w)
  define header where "header =
     patch (le_bytes 4 16777215) 58
     (patch (le_bytes 4 0) 54
     (patch (le_bytes 4 2) 50
     (patch (le_bytes 4 2) 46
     (patch (le_bytes 4 0) 42
     (patch (le_bytes 4 0) 38
     (patch (le_bytes 4 (nat \<lfloor>of_nat (width this) * of_nat (height this) / (8 :: rat)\<rfloor>)) 34
     (patch (le_bytes 4 0) 30
     (patch (le_bytes 2 1) 28
     (patch (le_bytes 2 1) 26
     (patch (le_bytes 4 (height this)) 22
     (patch (le_bytes 4 (width this)) 18
     (patch (le_bytes 4 40) 14
     (patch (le_bytes 4 62) 10
     (patch (le_bytes 4 0) 6
     (patch (le_bytes 4 (nat \<lfloor>62 + of_nat (height this) * paddedWidthBytes this\<rfloor>)) 2
     (patch [0x42, 0x4D] 0 (replicate 62 0)))))))))))))))))"
  have ch: "createHeader this = Inr header"
    unfolding header_def
    using assms(2,3) fs img by (intro createHeader_mono_eq) (simp_all add: this_def)
  have len: "length header = 62"
    by (simp add: header_def)
  have hw: "readUInt32LE header 18 = w"
    using assms(2)
    by (simp add: header_def readUInt32LE_patch_other readUInt32LE_patch_same this_def)
  have hh: "readUInt32LE header 22 = h"
    using assms(3)
    by (simp add: header_def readUInt32LE_patch_other readUInt32LE_patch_same this_def)
  from createPixelData_mono [of this w h P pad c data] P w
  obtain pd where pd: "createPixelData this data = Inr pd" and lpd: "length pd = h * P"
    by (auto simp: this_def)
  have "bmp_encode w h 1 data = Inr (header @ pd)"
    by (simp add: bmp_encode_def new encode_def ch pd)
  moreover have "length (header @ pd) = 62 + h * P"
    by (simp add: len lpd)
  moreover have "readUInt32LE (header @ pd) 18 = w" "readUInt32LE (header @ pd) 22 = h"
    by (simp_all add: readUInt32LE_append len hw hh)
  ultimately show ?thesis
    unfolding P_def c_def by blast
qed

section \<open>Properties of the encoder\<close>

lemma bmp_encode_mono_fractional:
  assumes "\<not> 8 dvd w" and "0 < h"
  shows "bmp_encode w h 1 data \<noteq> Inr out"
proof
  assume ok: "bmp_encode w h 1 data = Inr out"
  then obtain this where new: "new_BMPEncoder w h 1 = Inr this" and "encode this data = Inr out"
    by (auto simp: bmp_encode_def then_do_eq_Inr)
  then obtain pd where "createPixelData this data = Inr pd"
    by (auto simp: encode_def then_do_eq_Inr)
  from createPixelData_mono_Inr [OF new this assms(2)] assms(1) show False
    by blast
qed

lemma createPixelData_no_rows:
  assumes "height this = 0" and "createPixelData this data = Inr pd"
  shows "pd = []"
  using assms by (auto simp: createPixelData_def alloc_def split: if_splits)

lemma patch_eq:
  "off + length bs \<le> length buf \<Longrightarrow>
   patch bs off buf = take off buf @ bs @ drop (off + length bs) buf"
proof (induction bs arbitrary: off buf)
  case Nil
  then show ?case by (simp add: patch.simps)
next
  case (Cons b bs)
  then have "off < length buf" by simp
  then have "buf[off := b] = take off buf @ b # drop (Suc off) buf"
    by (simp add: upd_conv_take_nth_drop)
  with Cons show ?case
    by (simp add: patch.simps take_Suc_conv_app_nth drop_Suc add.commute)
qed

lemma zeros_62:
  "replicate 62 (0 :: byte) =
     [0, 0, 0, 0, 0, 0, 0, 0, 0, 0, 0, 0, 0, 0, 0, 0, 0, 0, 0, 0, 0, 0, 0, 0, 0, 0, 0, 0, 0, 0, 0,
      0, 0, 0, 0, 0, 0, 0, 0, 0, 0, 0, 0, 0, 0, 0, 0, 0, 0, 0, 0, 0, 0, 0, 0, 0, 0, 0, 0, 0, 0, 0]"
  by code_simp

text \<open>
  C3, as claimed, fails: with an empty sample buffer, \<open>new BMPEncoder(8, 1, 1).encode\<close>
  does not fail. It returns the 62-byte header followed by one padded row in which the
  eight missing samples are black.
\<close>

theorem C3_empty_buffer_encoded:
  "bmp_encode 8 1 1 [] =
     Inr [66, 77, 66, 0, 0, 0, 0, 0, 0, 0, 62, 0, 0, 0, 40, 0, 0, 0, 8, 0, 0, 0, 1, 0, 0, 0,
          1, 0, 1, 0, 0, 0, 0, 0, 1, 0, 0, 0, 0, 0, 0, 0, 0, 0, 0, 0, 2, 0, 0, 0, 2, 0, 0, 0,
          0, 0, 0, 0, 255, 255, 255, 0,
          0, 0, 0, 0]"
proof -
  define this where "this = \<lparr> width = 8, height = 1, bitsPerPixel = 1, padding = 3,
      paddedWidthBytes = 4 \<rparr>"
  have new: "new_BMPEncoder 8 1 1 = Inr this"
    unfolding this_def by (simp add: new_BMPEncoder_mono padded_row_def)
  have "createHeader this = Inr
     (patch (le_bytes 4 16777215) 58
     (patch (le_bytes 4 0) 54
     (patch (le_bytes 4 2) 50
     (patch (le_bytes 4 2) 46
     (patch (le_bytes 4 0) 42
     (patch (le_bytes 4 0) 38
     (patch (le_bytes 4 (nat \<lfloor>of_nat (width this) * of_nat (height this) / (8 :: rat)\<rfloor>)) 34
     (patch (le_bytes 4 0) 30
     (patch (le_bytes 2 1) 28
     (patch (le_bytes 2 1) 26
     (patch (le_bytes 4 (height this)) 22
     (patch (le_bytes 4 (width this)) 18
     (patch (le_bytes 4 40) 14
     (patch (le_bytes 4 62) 10
     (patch (le_bytes 4 0) 6
     (patch (le_bytes 4 (nat \<lfloor>62 + of_nat (height this) * paddedWidthBytes this\<rfloor>)) 2
     (patch [0x42, 0x4D] 0 (replicate 62 0))))))))))))))))))"
    by (rule createHeader_mono_eq) (simp_all add: this_def)
  then have header: "createHeader this =
     Inr [66, 77, 66, 0, 0, 0, 0, 0, 0, 0, 62, 0, 0, 0, 40, 0, 0, 0, 8, 0, 0, 0, 1, 0, 0, 0,
          1, 0, 1, 0, 0, 0, 0, 0, 1, 0, 0, 0, 0, 0, 0, 0, 0, 0, 0, 0, 2, 0, 0, 0, 2, 0, 0, 0,
          0, 0, 0, 0, 255, 255, 255, 0]"
    by (simp add: this_def patch_eq zeros_62 le_bytes_4 le_bytes_2)
  have pixels: "createPixelData this [] = Inr [0, 0, 0, 0]"
    unfolding this_def by code_simp
  show ?thesis
    unfolding bmp_encode_def new then_do_Inr encode_def header pixels by simp
qed

text \<open>
  C3, as the code has it. \<open>encode\<close> never looks at the length of the sample buffer. A
  sample past the end reads as \<open>undefined\<close> and is encoded like a zero sample, so the
  result (a container or an error) is the same as for the buffer extended with zero
  samples, whatever the width, height and depth. In particular every buffer, however
  short, yields a container of the full size: for 24 bits per pixel, and for 1 bit per
  pixel with a width that is a multiple of 8, whenever the dimensions fit the header fields.
\<close>

theorem C3_short_buffer_like_zero_samples:
  "bmp_encode w h bpp (data @ replicate k 0) = bmp_encode w h bpp data
   \<and> (w \<le> 2147483647 \<and> h \<le> 2147483647 \<and> 54 + h * padded_row (3 * w) \<le> 4294967295 \<longrightarrow>
        (\<exists>out. bmp_encode w h 24 data = Inr out \<and> length out = 54 + h * padded_row (3 * w)))
   \<and> (8 dvd w \<and> w \<le> 2147483647 \<and> h \<le> 2147483647 \<and> 62 + h * padded_row (w div 8) \<le> 4294967295 \<longrightarrow>
        (\<exists>out. bmp_encode w h 1 data = Inr out \<and> length out = 62 + h * padded_row (w div 8)))"
proof (intro conjI impI)
  show "bmp_encode w h bpp (data @ replicate k 0) = bmp_encode w h bpp data"
    by (rule bmp_encode_zero_extended)
next
  assume "w \<le> 2147483647 \<and> h \<le> 2147483647 \<and> 54 + h * padded_row (3 * w) \<le> 4294967295"
  then have "w \<le> 2147483647" "h \<le> 2147483647" "54 + h * padded_row (3 * w) \<le> 4294967295"
    by blast+
  from encode_rgb_whole [OF this, of data]
  show "\<exists>out. bmp_encode w h 24 data = Inr out \<and> length out = 54 + h * padded_row (3 * w)"
    by blast
next
  assume "8 dvd w \<and> w \<le> 2147483647 \<and> h \<le> 2147483647 \<and> 62 + h * padded_row (w div 8) \<le> 4294967295"
  then have "8 dvd w" "w \<le> 2147483647" "h \<le> 2147483647" "62 + h * padded_row (w div 8) \<le> 4294967295"
    by blast+
  from encode_mono_whole [OF this, of data]
  show "\<exists>out. bmp_encode w h 1 data = Inr out \<and> length out = 62 + h * padded_row (w div 8)"
    by blast
qed

theorem C3_short_buffer_like_zero_samples_witness:
  "bmp_encode 16 2 1 ([255] @ replicate 31 0) = bmp_encode 16 2 1 [255]
   \<and> (\<exists>out. bmp_encode 16 2 24 [255] = Inr out \<and> length out = 54 + 2 * 48)
   \<and> (\<exists>out. bmp_encode 16 2 1 [255] = Inr out \<and> length out = 62 + 2 * 4)"
  using C3_short_buffer_like_zero_samples [of 16 2 1 "[255]" 31]
  by (simp add: padded_row_def)

text \<open>
  C4 at a failing input: a 1-bit image 10 pixels wide and 1 pixel high, with a sample
  buffer of the full size. The constructor computes \<open>rowBytes = 1.25\<close>, a padding of
  2.75 and a padded row of 4.75 bytes, which is not a multiple of 4; \<open>createPixelData\<close>
  allocates 4 bytes, and the third padding write, at offset 4, throws. No buffer is
  returned.
\<close>

theorem C4_fractional_row_fails:
  "new_BMPEncoder 10 1 1 =
     Inr \<lparr> width = 10, height = 1, bitsPerPixel = 1, padding = 11 / 4, paddedWidthBytes = 19 / 4 \<rparr>
   \<and> bmp_encode 10 1 1 (replicate 10 255) = Inl RangeError"
proof -
  define this where "this = \<lparr> width = 10, height = 1, bitsPerPixel = 1, padding = 11 / 4,
      paddedWidthBytes = 19 / 4 \<rparr>"
  have new: "new_BMPEncoder 10 1 1 = Inr this"
    unfolding this_def by code_simp
  have "\<exists>header. createHeader this = Inr header"
    by (rule exI, rule createHeader_mono_eq) (simp_all add: this_def)
  then obtain header where header: "createHeader this = Inr header" ..
  have pixels: "createPixelData this (replicate 10 255) = Inl RangeError"
    unfolding this_def by code_simp
  have "bmp_encode 10 1 1 (replicate 10 255) = Inl RangeError"
    unfolding bmp_encode_def new then_do_Inr encode_def header pixels by simp
  with new show ?thesis
    unfolding this_def by simp
qed

text \<open>
  C6. Packing of 1-bit pixels. For an encoder made by \<open>new BMPEncoder(w, h, 1)\<close>:
  when the width is a multiple of 8, \<open>createPixelData\<close> returns the pixel data, for every
  sample buffer; and whenever it returns pixel data, these are \<open>h\<close> rows of
  \<open>padded_row (w div 8)\<close> bytes in which the pixel at column \<open>x\<close> of input row \<open>y\<close>
  is bit \<open>7 - x mod 8\<close> (the most significant bit first) of byte \<open>x div 8\<close> of output
  row \<open>h - 1 - y\<close>, and that bit is 1 exactly when the sample is 255: any other sample,
  and a missing one, gives 0 (there is no threshold).
\<close>

theorem C6_mono_packing:
  assumes "new_BMPEncoder w h 1 = Inr this"
  shows "(8 dvd w \<longrightarrow> (\<exists>pd. createPixelData this data = Inr pd))
    \<and> (\<forall>pd. createPixelData this data = Inr pd \<longrightarrow>
          length pd = h * padded_row (w div 8)
          \<and> (\<forall>y<h. \<forall>x<w.
                bit (pd ! ((h - 1 - y) * padded_row (w div 8) + x div 8)) (7 - x mod 8)
                \<longleftrightarrow> js_index data (y * w + x) = Some 255))"
proof (cases "8 dvd w")
  case True
  define c where "c = w div 8"
  define pad where "pad = (4 - c mod 4) mod 4"
  from assms new_BMPEncoder_mono [OF True, of h]
  have rec: "this = \<lparr> width = w, height = h, bitsPerPixel = 1,
      padding = of_nat pad, paddedWidthBytes = of_nat (padded_row c) \<rparr>"
    by (simp add: c_def pad_def)
  have P: "padded_row c = c + pad"
    by (simp add: pad_def padded_row_def)
  have w: "w = 8 * c"
    using True by (simp add: c_def)
  from createPixelData_mono [of this w h "padded_row c" pad c data] P w
  obtain pd where pd: "createPixelData this data = Inr pd" and "length pd = h * padded_row c"
    and "\<forall>y<h. \<forall>x<w. bit (pd ! ((h - 1 - y) * padded_row c + x div 8)) (7 - x mod 8)
          \<longleftrightarrow> js_index data (y * w + x) = Some 255"
    unfolding rec by auto
  then show ?thesis
    unfolding c_def by auto
next
  case False
  have "length pd = h * padded_row (w div 8)
      \<and> (\<forall>y<h. \<forall>x<w. bit (pd ! ((h - 1 - y) * padded_row (w div 8) + x div 8)) (7 - x mod 8)
            \<longleftrightarrow> js_index data (y * w + x) = Some 255)"
    if ok: "createPixelData this data = Inr pd" for pd
  proof -
    from createPixelData_mono_Inr [OF assms ok] False have h: "h = 0"
      by auto
    with new_BMPEncoder_fields(2) [OF assms] have "height this = 0"
      by simp
    from createPixelData_no_rows [OF this ok] h show ?thesis
      by simp
  qed
  with False show ?thesis
    by blast
qed

theorem C6_mono_packing_witness:
  "\<exists>pd. createPixelData
          \<lparr> width = 8, height = 2, bitsPerPixel = 1, padding = 3, paddedWidthBytes = 4 \<rparr>
          [255, 0, 254, 0, 255, 0, 255, 0, 255, 255, 255, 255, 0, 0, 0, 0] = Inr pd
     \<and> length pd = 8 \<and> bit (pd ! 4) 7 \<and> \<not> bit (pd ! 4) 5 \<and> bit (pd ! 0) 4 \<and> \<not> bit (pd ! 0) 3"
proof -
  define this where "this = \<lparr> width = 8, height = 2, bitsPerPixel = 1, padding = 3,
      paddedWidthBytes = 4 \<rparr>"
  define data :: buffer where "data = [255, 0, 254, 0, 255, 0, 255, 0, 255, 255, 255, 255, 0, 0, 0, 0]"
  have new: "new_BMPEncoder 8 2 1 = Inr this"
    unfolding this_def by (simp add: new_BMPEncoder_mono padded_row_def)
  from C6_mono_packing [OF new, of data]
  obtain pd where pd: "createPixelData this data = Inr pd" and len: "length pd = 2 * padded_row (8 div 8)"
    and bits: "\<And>y x. y < 2 \<Longrightarrow> x < 8 \<Longrightarrow>
        bit (pd ! ((2 - 1 - y) * padded_row (8 div 8) + x div 8)) (7 - x mod 8)
        \<longleftrightarrow> js_index data (y * 8 + x) = Some 255"
    by auto
  from bits [of 0 0] have "bit (pd ! 4) 7"
    by (simp add: padded_row_def js_index_def data_def)
  moreover from bits [of 0 2] have "\<not> bit (pd ! 4) 5"
    by (simp add: padded_row_def js_index_def data_def)
  moreover from bits [of 1 3] have "bit (pd ! 0) 4"
    by (simp add: padded_row_def js_index_def data_def)
  moreover from bits [of 1 4] have "\<not> bit (pd ! 0) 3"
    by (simp add: padded_row_def js_index_def data_def)
  ultimately show ?thesis
    using pd len unfolding this_def data_def by (simp add: padded_row_def)
qed




end
